theory Spec2Isabelle
  imports Complex_Main
begin

section \<open>Data model of transit\_gtfs.py\<close>

text \<open>
  The classes the script reads come from the library packages \<^verbatim>\<open>graph\<close>, \<^verbatim>\<open>gtfs\<close> and
  \<^verbatim>\<open>path_engine\<close>; each record below holds the attributes that \<^verbatim>\<open>transit_gtfs.py\<close>
  reads or writes. Python floats are modelled as reals, Python integers as \<open>int\<close>, and
  indices that the code keeps non-negative as \<open>nat\<close>. The attribute \<^verbatim>\<open>prevTreeNode\<close>
  of a path-tree node is assigned but never read by the script and is left out.
\<close>

datatype py_error = IndexError | KeyError | NameError | AttributeError | PathEngineError

record GraphNode =
  node_id :: int
  gpsLat :: real
  gpsLng :: real

record GraphLink =
  link_id :: int
  origNode :: GraphNode
  destNode :: GraphNode

record PointOnLink =
  link :: GraphLink
  link_dist :: real
  nonPerpPenalty :: real
  refDist :: real

record ShapesEntry =
  shapeID :: int
  shapeSeq :: int
  lat :: real
  lng :: real

record PathEnd =
  shapeEntry :: ShapesEntry
  pointOnLink :: PointOnLink
  routeInfo :: "GraphLink list"
  restart :: bool
  totalDist :: real
  totalCost :: real

record StopsEntry =
  stopID :: int
  stopName :: string
  stop_gpsLat :: real
  stop_gpsLng :: real
  pointX :: real
  pointY :: real

record StopTimesEntry =
  stopSeq :: int
  stop_time :: int
  stop :: StopsEntry

record TripsEntry =
  trip_key :: int
  shapeEntries :: "ShapesEntry list"

text \<open>
  Messages written to \<^verbatim>\<open>sys.stderr\<close>, one constructor per \<^verbatim>\<open>print\<close> statement of
  \<^verbatim>\<open>dumpBusRouteLinks\<close>, carrying the values that the format string receives.
\<close>

datatype log_msg =
    InfoRoute int
  | WarnTrimmed int int int nat nat
  | WarnLinkNotFound int
  | InfoMapping
  | WarnDuplicate nat int int int int
  | WarnConflict int int int
  | WarnUnmatched int int int
  | WarnNoLinks int

text \<open>A data row of \<^verbatim>\<open>public.bus_route_link.csv\<close>; a blank field is \<open>None\<close>.\<close>

record route_link_row =
  row_route :: int
  row_sequence :: int
  row_link :: int
  row_stop :: "int option"
  row_dwelltime :: "int option"

definition DWELLTIME_DEFAULT :: int where
  "DWELLTIME_DEFAULT = 0"

text \<open>
  An entry of the problem-report accumulator: either a tree node rebuilt from a matched
  stop (lines 313--328), or the dummy node of lines 388--396, of which the code sets the
  shape entry, the point coordinates and \<^verbatim>\<open>restart = True\<close>.
\<close>

datatype ReportNode =
    Reconstructed PathEnd
  | Placeholder ShapesEntry real real

fun report_restart :: "ReportNode \<Rightarrow> bool" where
  "report_restart (Reconstructed n) = restart n"
| "report_restart (Placeholder se x y) = True"

fun is_placeholder :: "ReportNode \<Rightarrow> bool" where
  "is_placeholder (Reconstructed n) = False"
| "is_placeholder (Placeholder se x y) = True"

section \<open>The graph container\<close>

text \<open>
  Modelled from the spec: \<^verbatim>\<open>graph.GraphLib\<close> is not among the sources. The script uses its
  dictionaries \<^verbatim>\<open>nodeMap\<close> and \<^verbatim>\<open>linkMap\<close> (keyed by identifier) and its methods
  \<^verbatim>\<open>addNode\<close> and \<^verbatim>\<open>addLink\<close>. Here a graph records every insertion in order, and the
  two dictionaries are read off the insertion lists, a later insertion under the same
  identifier hiding an earlier one as a dictionary assignment would.
\<close>

record GraphLib =
  latCtr :: real
  lngCtr :: real
  nodeList :: "GraphNode list"
  linkList :: "GraphLink list"

definition nodeMap :: "GraphLib \<Rightarrow> int \<rightharpoonup> GraphNode" where
  "nodeMap g = map_of (rev (map (\<lambda>n. (node_id n, n)) (nodeList g)))"

definition linkMap :: "GraphLib \<Rightarrow> int \<rightharpoonup> GraphLink" where
  "linkMap g = map_of (rev (map (\<lambda>l. (link_id l, l)) (linkList g)))"

definition addNode :: "GraphLib \<Rightarrow> GraphNode \<Rightarrow> GraphLib" where
  "addNode g n = g\<lparr>nodeList := nodeList g @ [n]\<rparr>"

definition addLink :: "GraphLib \<Rightarrow> GraphLink \<Rightarrow> GraphLib" where
  "addLink g l = g\<lparr>linkList := linkList g @ [l]\<rparr>"

definition new_GraphLib :: "real \<Rightarrow> real \<Rightarrow> GraphLib" where
  "new_GraphLib la lo = \<lparr>latCtr = la, lngCtr = lo, nodeList = [], linkList = []\<rparr>"

definition new_GraphNode :: "GraphNode \<Rightarrow> GraphNode" where
  "new_GraphNode n = \<lparr>node_id = node_id n, gpsLat = gpsLat n, gpsLng = gpsLng n\<rparr>"

section \<open>Step 1: the longest contiguous interval (lines 175--204)\<close>

text \<open>
  \<^verbatim>\<open>sys.float_info.min\<close> is the smallest positive normalised double, 2 to the power -1022: it is positive, not the most negative double.
\<close>

definition float_info_min :: real where
  "float_info_min = 1 / 2 ^ 1022"

record seg_state =
  startIndex :: int
  linkCount :: nat
  totalLinks :: nat
  longestStart :: int
  longestEnd :: nat
  longestDist :: real
  longestLinkCount :: nat

definition segment_init :: "PathEnd list \<Rightarrow> seg_state" where
  "segment_init treeNodes =
     \<lparr>startIndex = -1, linkCount = 0, totalLinks = 0, longestStart = -1,
      longestEnd = length treeNodes, longestDist = float_info_min, longestLinkCount = 0\<rparr>"

text \<open>
  One iteration of the \<^verbatim>\<open>while curIndex <= len(treeNodes)\<close> loop. Every list read is
  guarded as in the source: \<^verbatim>\<open>treeNodes[curIndex]\<close> is read only for
  \<open>0 < curIndex < len\<close>, and the two reads of the interval test only for
  \<open>0 \<le> startIndex < curIndex\<close>.
\<close>

definition segment_step :: "PathEnd list \<Rightarrow> nat \<Rightarrow> seg_state \<Rightarrow> seg_state" where
  "segment_step treeNodes curIndex s =
     (if curIndex = length treeNodes \<or> curIndex = 0 \<or> restart (treeNodes ! curIndex) then
        let s1 = s\<lparr>totalLinks := totalLinks s + 1, linkCount := linkCount s + 1\<rparr>;
            s2 = (if int curIndex > startIndex s1 \<and> startIndex s1 \<ge> 0 then
                    (if totalDist (treeNodes ! (curIndex - 1))
                          - totalDist (treeNodes ! nat (startIndex s1)) > longestDist s1
                     then s1\<lparr>longestStart := startIndex s1,
                              longestEnd := curIndex,
                              longestDist := totalDist (treeNodes ! (curIndex - 1))
                                 - totalDist (treeNodes ! nat (startIndex s1)),
                              longestLinkCount := linkCount s1,
                              linkCount := 0\<rparr>
                     else s1)
                  else s1)
        in s2\<lparr>startIndex := int curIndex\<rparr>
      else
        s\<lparr>totalLinks := totalLinks s + length (routeInfo (treeNodes ! curIndex)),
          linkCount := linkCount s + length (routeInfo (treeNodes ! curIndex))\<rparr>)"

function segment_scan :: "PathEnd list \<Rightarrow> nat \<Rightarrow> seg_state \<Rightarrow> seg_state" where
  "segment_scan treeNodes curIndex s =
     (if curIndex \<le> length treeNodes
      then segment_scan treeNodes (curIndex + 1) (segment_step treeNodes curIndex s)
      else s)"
  by pat_completeness auto
termination
  by (relation "measure (\<lambda>(treeNodes, curIndex, s). length treeNodes + 1 - curIndex)") auto

declare segment_scan.simps [simp del]

definition longest_interval :: "PathEnd list \<Rightarrow> seg_state" where
  "longest_interval treeNodes = segment_scan treeNodes 0 (segment_init treeNodes)"

text \<open>
  The vocabulary of the interval property: position \<open>i\<close> is a boundary when the loop
  treats it as one, a run lies between two boundaries with no restart flag strictly
  inside, and the span of a run is the distance the loop compares.
\<close>

definition boundary :: "PathEnd list \<Rightarrow> nat \<Rightarrow> bool" where
  "boundary t i \<longleftrightarrow> i = 0 \<or> i = length t \<or> (i < length t \<and> restart (t ! i))"

definition is_run :: "PathEnd list \<Rightarrow> nat \<Rightarrow> nat \<Rightarrow> bool" where
  "is_run t a e \<longleftrightarrow> a < e \<and> e \<le> length t \<and> boundary t a \<and> boundary t e
      \<and> (\<forall>i \<in> {a<..<e}. \<not> restart (t ! i))"

definition run_span :: "PathEnd list \<Rightarrow> nat \<Rightarrow> nat \<Rightarrow> real" where
  "run_span t a e = totalDist (t ! (e - 1)) - totalDist (t ! a)"

section \<open>Step 2a: the small network of the selected interval (lines 219--273)\<close>

text \<open>
  The builder's variables. \<^verbatim>\<open>vistaNode\<close> is a local name of the whole function
  \<^verbatim>\<open>dumpBusRouteLinks\<close>: it is unbound (\<open>None\<close>) until first assigned and keeps its
  value from one trip to the next.
\<close>

record build_state =
  vistaSubset :: GraphLib
  vistaNodePrior :: GraphNode
  vistaNode :: "GraphNode option"
  outLinkIDList :: "int list"
  build_log :: "log_msg list"

text \<open>The inner loop \<^verbatim>\<open>for link in ourGTFSNode.routeInfo\<close> (lines 245--266).\<close>

fun add_route_links :: "GraphLib \<Rightarrow> GraphLink list \<Rightarrow> build_state \<Rightarrow> build_state" where
  "add_route_links vistaNetwork [] b = b"
| "add_route_links vistaNetwork (l # rest) b =
     (case linkMap vistaNetwork (link_id l) of
        None \<Rightarrow>
          add_route_links vistaNetwork rest
            (b\<lparr>build_log := build_log b @ [WarnLinkNotFound (link_id l)]\<rparr>)
      | Some origVistaLink \<Rightarrow>
          (let (sub1, vnode) =
                 (case nodeMap (vistaSubset b) (node_id (origNode origVistaLink)) of
                    None \<Rightarrow> (addNode (vistaSubset b) (new_GraphNode (origNode origVistaLink)),
                             new_GraphNode (origNode origVistaLink))
                  | Some n \<Rightarrow> (vistaSubset b, n));
               sub2 =
                 (if linkMap sub1 (last (outLinkIDList b)) = None
                  then addLink sub1 \<lparr>link_id = last (outLinkIDList b),
                                      origNode = vistaNodePrior b, destNode = vnode\<rparr>
                  else sub1)
           in add_route_links vistaNetwork rest
                (b\<lparr>vistaSubset := sub2, vistaNodePrior := vnode, vistaNode := Some vnode,
                   outLinkIDList := outLinkIDList b @ [link_id l]\<rparr>)))"

text \<open>
  The outer loop \<^verbatim>\<open>for ourGTFSNode in ourGTFSNodes\<close> (lines 238--266); \<open>firstID\<close> is
  \<^verbatim>\<open>ourGTFSNodes[0].pointOnLink.link.id\<close>. \<^verbatim>\<open>routeInfo[0]\<close> is read only when
  \<^verbatim>\<open>routeInfo\<close> is not empty.
\<close>

fun add_tree_nodes :: "GraphLib \<Rightarrow> int \<Rightarrow> PathEnd list \<Rightarrow> build_state \<Rightarrow> build_state" where
  "add_tree_nodes vistaNetwork firstID [] b = b"
| "add_tree_nodes vistaNetwork firstID (ourGTFSNode # rest) b =
     (if length (routeInfo ourGTFSNode) < 1
         \<or> (length (outLinkIDList b) = 1 \<and> link_id (hd (routeInfo ourGTFSNode)) = firstID)
      then add_tree_nodes vistaNetwork firstID rest b
      else add_tree_nodes vistaNetwork firstID rest
             (add_route_links vistaNetwork (routeInfo ourGTFSNode) b))"

text \<open>
  Lines 223--273. \<^verbatim>\<open>ourGTFSNodes[0]\<close> raises on an empty slice; the closing
  \<^verbatim>\<open>addLink\<close> reads \<^verbatim>\<open>vistaNode\<close>, which raises \<^verbatim>\<open>NameError\<close> while the name is unbound.
\<close>

definition build_subgraph ::
  "GraphLib \<Rightarrow> GraphNode option \<Rightarrow> PathEnd list \<Rightarrow> py_error + build_state" where
  "build_subgraph vistaNetwork vistaNode0 ourGTFSNodes =
     (case ourGTFSNodes of
        [] \<Rightarrow> Inl IndexError
      | first # _ \<Rightarrow>
          (let startNode = new_GraphNode (origNode (link (pointOnLink first)));
               b0 = \<lparr>vistaSubset =
                       addNode (new_GraphLib (latCtr vistaNetwork) (lngCtr vistaNetwork)) startNode,
                     vistaNodePrior = startNode,
                     vistaNode = vistaNode0,
                     outLinkIDList = [link_id (link (pointOnLink first))],
                     build_log = []\<rparr>;
               b1 = add_tree_nodes vistaNetwork (link_id (link (pointOnLink first))) ourGTFSNodes b0;
               endNode = destNode (link (pointOnLink (last ourGTFSNodes)));
               b2 = (if nodeMap (vistaSubset b1) (node_id endNode) = None
                     then b1\<lparr>vistaSubset := addNode (vistaSubset b1) (new_GraphNode endNode),
                             vistaNode := Some (new_GraphNode endNode)\<rparr>
                     else b1)
           in if linkMap (vistaSubset b2) (last (outLinkIDList b2)) = None
              then (case vistaNode b2 of
                      None \<Rightarrow> Inl NameError
                    | Some vn \<Rightarrow>
                        Inr (b2\<lparr>vistaSubset :=
                                  addLink (vistaSubset b2)
                                    \<lparr>link_id = last (outLinkIDList b2),
                                     origNode = vistaNodePrior b2, destNode = vn\<rparr>\<rparr>))
              else Inr b2))"

section \<open>Step 2b: the stops as a query sequence (lines 275--303)\<close>

definition stop_shapes :: "PathEnd list \<Rightarrow> StopTimesEntry list \<Rightarrow> ShapesEntry list" where
  "stop_shapes ourGTFSNodes stopTimes =
     \<lparr>shapeID = -1, shapeSeq = -1,
       lat = gpsLat (origNode (link (pointOnLink (hd ourGTFSNodes)))),
       lng = gpsLng (origNode (link (pointOnLink (hd ourGTFSNodes))))\<rparr>
     # map (\<lambda>gtfsStopTime. \<lparr>shapeID = -1, shapeSeq = stopSeq gtfsStopTime,
                lat = stop_gpsLat (stop gtfsStopTime), lng = stop_gpsLng (stop gtfsStopTime)\<rparr>)
         stopTimes
     @ [\<lparr>shapeID = -1, shapeSeq = -1,
         lat = gpsLat (destNode (link (pointOnLink (last ourGTFSNodes)))),
         lng = gpsLng (destNode (link (pointOnLink (last ourGTFSNodes))))\<rparr>]"

text \<open>\<^verbatim>\<open>gtfsStopsLookup\<close>: a later stop time with the same sequence number replaces an earlier one.\<close>

definition gtfsStopsLookup :: "StopTimesEntry list \<Rightarrow> int \<rightharpoonup> StopTimesEntry" where
  "gtfsStopsLookup stopTimes = map_of (rev (map (\<lambda>st. (stopSeq st, st)) stopTimes))"

text \<open>\<^verbatim>\<open>del resultTree[-1]; del resultTree[0]\<close>: each raises on an empty list.\<close>

definition strip_dummy_ends :: "PathEnd list \<Rightarrow> py_error + PathEnd list" where
  "strip_dummy_ends resultTree =
     (if resultTree = [] then Inl IndexError
      else if butlast resultTree = [] then Inl IndexError
      else Inr (tl (butlast resultTree)))"

section \<open>The problem report's node list (lines 308--329)\<close>

fun revise_nodes ::
  "GraphLib \<Rightarrow> int \<Rightarrow> PathEnd list \<Rightarrow> (int \<rightharpoonup> ReportNode) \<Rightarrow> py_error + (int \<rightharpoonup> ReportNode)" where
  "revise_nodes vistaNetwork sid [] revisedNodeList = Inr revisedNodeList"
| "revise_nodes vistaNetwork sid (stopNode # rest) revisedNodeList =
     (case linkMap vistaNetwork (link_id (link (pointOnLink stopNode))) of
        None \<Rightarrow> Inl KeyError
      | Some origLink \<Rightarrow>
          (if \<forall>l \<in> set (routeInfo stopNode). linkMap vistaNetwork (link_id l) \<noteq> None
           then revise_nodes vistaNetwork sid rest
                  (revisedNodeList(shapeSeq (shapeEntry stopNode) \<mapsto>
                     Reconstructed
                       \<lparr>shapeEntry = \<lparr>shapeID = sid, shapeSeq = shapeSeq (shapeEntry stopNode),
                                      lat = lat (shapeEntry stopNode), lng = lng (shapeEntry stopNode)\<rparr>,
                        pointOnLink = \<lparr>link = origLink,
                                       link_dist = link_dist (pointOnLink stopNode),
                                       nonPerpPenalty = nonPerpPenalty (pointOnLink stopNode),
                                       refDist = refDist (pointOnLink stopNode)\<rparr>,
                        routeInfo = map (\<lambda>l. the (linkMap vistaNetwork (link_id l))) (routeInfo stopNode),
                        restart = False,
                        totalDist = totalDist stopNode,
                        totalCost = totalCost stopNode\<rparr>))
           else Inl KeyError))"

section \<open>The per-link walk (lines 331--375)\<close>

record scan_state =
  resultIndex :: nat
  curResultIndex :: nat
  bestTreeEntry :: "PathEnd option"
  matchCtr :: nat
  foundStopSet :: "int set"

text \<open>
  The body of \<^verbatim>\<open>while curResultIndex < len(resultTree)\<close> up to and including
  \<^verbatim>\<open>curResultIndex += 1\<close> (lines 344--350). The comparison of line 346 reads
  \<^verbatim>\<open>resultTree[resultIndex]\<close>, with the value \<^verbatim>\<open>resultIndex\<close> has before line 349.
\<close>

definition scan_body :: "PathEnd list \<Rightarrow> int \<Rightarrow> scan_state \<Rightarrow> scan_state" where
  "scan_body resultTree linkID s =
     (let s1 =
        (if link_id (link (pointOnLink (resultTree ! curResultIndex s))) = linkID then
           s\<lparr>foundStopSet :=
                insert (shapeSeq (shapeEntry (resultTree ! curResultIndex s))) (foundStopSet s),
             bestTreeEntry :=
                (case bestTreeEntry s of
                   None \<Rightarrow> Some (resultTree ! resultIndex s)
                 | Some best \<Rightarrow>
                     if refDist (pointOnLink (resultTree ! resultIndex s)) < refDist (pointOnLink best)
                     then Some (resultTree ! resultIndex s) else Some best),
             matchCtr := matchCtr s + 1,
             resultIndex := curResultIndex s + 1\<rparr>
         else s)
      in s1\<lparr>curResultIndex := curResultIndex s + 1\<rparr>)"

text \<open>The test of line 351 that sends the loop round again.\<close>

definition scan_continue :: "PathEnd list \<Rightarrow> int \<Rightarrow> scan_state \<Rightarrow> bool" where
  "scan_continue resultTree linkID s \<longleftrightarrow>
     matchCtr s = 0
     \<or> (curResultIndex s < length resultTree
        \<and> link_id (link (pointOnLink (resultTree ! resultIndex s))) = linkID)"

function scan_link :: "PathEnd list \<Rightarrow> int \<Rightarrow> scan_state \<Rightarrow> scan_state" where
  "scan_link resultTree linkID s =
     (if curResultIndex s < length resultTree then
        (if scan_continue resultTree linkID (scan_body resultTree linkID s)
         then scan_link resultTree linkID (scan_body resultTree linkID s)
         else scan_body resultTree linkID s)
      else s)"
  by pat_completeness auto
termination
  by (relation "measure (\<lambda>(resultTree, linkID, s). length resultTree - curResultIndex s)")
    (auto simp: scan_body_def Let_def)

declare scan_link.simps [simp del]

definition scan_start :: "nat \<Rightarrow> int set \<Rightarrow> scan_state" where
  "scan_start r found =
     \<lparr>resultIndex = r, curResultIndex = r, bestTreeEntry = None, matchCtr = 0,
      foundStopSet = found\<rparr>"

text \<open>Lines 364--371: merging the link's stop into the map that the function returns.\<close>

definition assign_stop ::
  "(int \<rightharpoonup> PointOnLink) \<Rightarrow> log_msg list \<Rightarrow> int \<Rightarrow> PointOnLink
     \<Rightarrow> (int \<rightharpoonup> PointOnLink) \<times> log_msg list" where
  "assign_stop ret_map msgs sid p =
     (case ret_map sid of
        None \<Rightarrow> (ret_map(sid \<mapsto> p), msgs)
      | Some q \<Rightarrow>
          if link_id (link q) \<noteq> link_id (link p)
          then (ret_map, msgs @ [WarnConflict sid (link_id (link p)) (link_id (link q))])
          else (ret_map(sid \<mapsto> p), msgs))"

record walk_state =
  w_resultIndex :: nat
  w_foundStopSet :: "int set"
  w_outSeqCtr :: int
  w_ret :: "int \<rightharpoonup> PointOnLink"
  w_rows :: "route_link_row list"
  w_log :: "log_msg list"

text \<open>
  One iteration of \<^verbatim>\<open>for linkID in outLinkIDList\<close> (lines 337--375).
  \<^verbatim>\<open>gtfsStopsLookup[...]\<close> raises \<^verbatim>\<open>KeyError\<close> on a sequence number that no stop time
  has; reading an attribute of \<^verbatim>\<open>bestTreeEntry\<close> while it is \<^verbatim>\<open>None\<close> raises.
\<close>

definition link_step ::
  "int \<Rightarrow> (int \<rightharpoonup> StopTimesEntry) \<Rightarrow> PathEnd list \<Rightarrow> int \<Rightarrow> walk_state
     \<Rightarrow> py_error + walk_state" where
  "link_step tripID lookup resultTree linkID w =
     (let sc = scan_link resultTree linkID (scan_start (w_resultIndex w) (w_foundStopSet w)) in
      if matchCtr sc > 0 then
        (case bestTreeEntry sc of
           None \<Rightarrow> Inl AttributeError
         | Some best \<Rightarrow>
             (case lookup (shapeSeq (shapeEntry best)) of
                None \<Rightarrow> Inl KeyError
              | Some st \<Rightarrow>
                  (let msgs1 =
                         (if matchCtr sc > 1
                          then w_log w @ [WarnDuplicate (matchCtr sc) tripID linkID
                                            (stopID (stop st)) (shapeSeq (shapeEntry best))]
                          else w_log w);
                       (ret1, msgs2) =
                         assign_stop (w_ret w) msgs1 (stopID (stop st)) (pointOnLink best)
                   in Inr \<lparr>w_resultIndex = resultIndex sc,
                           w_foundStopSet = foundStopSet sc,
                           w_outSeqCtr = w_outSeqCtr w + 1,
                           w_ret = ret1,
                           w_rows = w_rows w @
                             [\<lparr>row_route = tripID, row_sequence = w_outSeqCtr w,
                               row_link = linkID, row_stop = Some (stopID (stop st)),
                               row_dwelltime = Some DWELLTIME_DEFAULT\<rparr>],
                           w_log = msgs2\<rparr>)))
      else
        Inr \<lparr>w_resultIndex = resultIndex sc,
             w_foundStopSet = foundStopSet sc,
             w_outSeqCtr = w_outSeqCtr w + 1,
             w_ret = w_ret w,
             w_rows = w_rows w @
               [\<lparr>row_route = tripID, row_sequence = w_outSeqCtr w, row_link = linkID,
                 row_stop = None, row_dwelltime = None\<rparr>],
             w_log = w_log w\<rparr>)"

fun walk_links ::
  "int \<Rightarrow> (int \<rightharpoonup> StopTimesEntry) \<Rightarrow> PathEnd list \<Rightarrow> int list \<Rightarrow> walk_state
     \<Rightarrow> py_error + walk_state" where
  "walk_links tripID lookup resultTree [] w = Inr w"
| "walk_links tripID lookup resultTree (linkID # rest) w =
     (case link_step tripID lookup resultTree linkID w of
        Inl e \<Rightarrow> Inl e
      | Inr w' \<Rightarrow> walk_links tripID lookup resultTree rest w')"

section \<open>Stops left over after the walk (lines 377--396)\<close>

text \<open>
  The accumulator \<^verbatim>\<open>problemReportNodes\<close> maps a shape identifier to the dictionary
  \<^verbatim>\<open>revisedNodeList\<close> of that shape; line 396 writes into the dictionary that the
  accumulator holds. \<open>problemReport\<close> is the module's flag of that name.
\<close>

fun report_unmatched ::
  "bool \<Rightarrow> int \<Rightarrow> int \<Rightarrow> int set \<Rightarrow> StopTimesEntry list
     \<Rightarrow> log_msg list \<times> (int \<rightharpoonup> (int \<rightharpoonup> ReportNode))
     \<Rightarrow> py_error + (log_msg list \<times> (int \<rightharpoonup> (int \<rightharpoonup> ReportNode)))" where
  "report_unmatched problemReport tripID sid found [] acc = Inr acc"
| "report_unmatched problemReport tripID sid found (gtfsStopTime # rest) (msgs, prn) =
     (if stopSeq gtfsStopTime \<notin> found then
        (let msgs1 = msgs @ [WarnUnmatched tripID (stopID (stop gtfsStopTime)) (stopSeq gtfsStopTime)]
         in if problemReport then
              (case prn sid of
                 None \<Rightarrow> Inl KeyError
               | Some revisedNodeList \<Rightarrow>
                   if revisedNodeList (stopSeq gtfsStopTime) = None
                   then report_unmatched problemReport tripID sid found rest
                          (msgs1,
                           prn(sid \<mapsto> revisedNodeList(stopSeq gtfsStopTime \<mapsto>
                             Placeholder
                               \<lparr>shapeID = sid, shapeSeq = stopSeq gtfsStopTime,
                                lat = stop_gpsLat (stop gtfsStopTime),
                                lng = stop_gpsLng (stop gtfsStopTime)\<rparr>
                               (pointX (stop gtfsStopTime)) (pointY (stop gtfsStopTime)))))
                   else report_unmatched problemReport tripID sid found rest (msgs1, prn))
            else report_unmatched problemReport tripID sid found rest (msgs1, prn))
      else report_unmatched problemReport tripID sid found rest (msgs, prn))"

section \<open>One trip, and the whole of dumpBusRouteLinks\<close>

text \<open>
  What outlives a trip: the returned map \<^verbatim>\<open>ret\<close>, the problem-report accumulator, the
  data rows written to \<^verbatim>\<open>outFile\<close> (the fixed header lines are not modelled), the
  messages written to \<^verbatim>\<open>sys.stderr\<close>, and the local name \<^verbatim>\<open>vistaNode\<close>.
\<close>

record run_state =
  ret :: "int \<rightharpoonup> PointOnLink"
  problemReportNodes :: "int \<rightharpoonup> (int \<rightharpoonup> ReportNode)"
  outFile :: "route_link_row list"
  stderr_log :: "log_msg list"
  vistaNode_var :: "GraphNode option"

text \<open>
  \<^verbatim>\<open>pathEngine.constructPath\<close> belongs to the library \<^verbatim>\<open>path_engine\<close> and is a parameter
  here: given the query sequence and the small network it returns the matched tree
  entries, or fails. Lines 296--396.
\<close>

definition assign_trip ::
  "bool \<Rightarrow> (ShapesEntry list \<Rightarrow> GraphLib \<Rightarrow> py_error + PathEnd list) \<Rightarrow> GraphLib
     \<Rightarrow> int \<Rightarrow> int \<Rightarrow> int \<Rightarrow> PathEnd list \<Rightarrow> StopTimesEntry list \<Rightarrow> build_state
     \<Rightarrow> run_state \<Rightarrow> py_error + run_state" where
  "assign_trip problemReport constructPath vistaNetwork tripID sid longestStart_v
      ourGTFSNodes stopTimes b st =
     (case constructPath (stop_shapes ourGTFSNodes stopTimes) (vistaSubset b) of
        Inl e \<Rightarrow> Inl e
      | Inr resultTree0 \<Rightarrow>
     (case strip_dummy_ends resultTree0 of
        Inl e \<Rightarrow> Inl e
      | Inr resultTree \<Rightarrow>
     (case (if problemReport
            then (case revise_nodes vistaNetwork sid resultTree Map.empty of
                    Inl e \<Rightarrow> Inl e
                  | Inr revisedNodeList \<Rightarrow> Inr ((problemReportNodes st)(sid \<mapsto> revisedNodeList)))
            else Inr (problemReportNodes st)) of
        Inl e \<Rightarrow> Inl e
      | Inr prn1 \<Rightarrow>
     (case walk_links tripID (gtfsStopsLookup stopTimes) resultTree (outLinkIDList b)
             \<lparr>w_resultIndex = 0, w_foundStopSet = {}, w_outSeqCtr = longestStart_v,
              w_ret = ret st, w_rows = outFile st, w_log = stderr_log st\<rparr> of
        Inl e \<Rightarrow> Inl e
      | Inr w \<Rightarrow>
     (case report_unmatched problemReport tripID sid (w_foundStopSet w) stopTimes (w_log w, prn1) of
        Inl e \<Rightarrow> Inl e
      | Inr (msgs, prn2) \<Rightarrow>
          Inr (st\<lparr>ret := w_ret w, problemReportNodes := prn2, outFile := w_rows w,
                 stderr_log := msgs\<rparr>))))))"

text \<open>
  The body of \<^verbatim>\<open>for tripID in tripIDs\<close> (lines 166--398). \<^verbatim>\<open>gtfsStopTimes\<close> is a
  dictionary keyed by the trip object. The percentage that the trimming warning prints
  is carried as its two operands (\<^verbatim>\<open>totalLinks\<close> is at least 1 there).
\<close>

definition process_trip ::
  "bool \<Rightarrow> (ShapesEntry list \<Rightarrow> GraphLib \<Rightarrow> py_error + PathEnd list)
     \<Rightarrow> (int \<rightharpoonup> PathEnd list) \<Rightarrow> (TripsEntry \<rightharpoonup> StopTimesEntry list) \<Rightarrow> GraphLib
     \<Rightarrow> int \<Rightarrow> TripsEntry \<Rightarrow> run_state \<Rightarrow> py_error + run_state" where
  "process_trip problemReport constructPath gtfsNodes gtfsStopTimes vistaNetwork tripID trip st =
     (case shapeEntries trip of
        [] \<Rightarrow> Inl IndexError
      | se # _ \<Rightarrow>
     (case gtfsNodes (shapeID se) of
        None \<Rightarrow> Inr st
      | Some treeNodes \<Rightarrow>
          (let st1 = st\<lparr>stderr_log := stderr_log st @ [InfoRoute tripID]\<rparr>;
               seg = longest_interval treeNodes
           in if longestStart seg \<ge> 0 then
                (let st2 =
                   (if longestStart seg > 0 \<or> longestEnd seg < length treeNodes
                    then st1\<lparr>stderr_log := stderr_log st1 @
                           [WarnTrimmed
                              (shapeID (shapeEntry (treeNodes ! nat (longestStart seg))))
                              (shapeSeq (shapeEntry (treeNodes ! nat (longestStart seg))))
                              (shapeSeq (shapeEntry (treeNodes ! (longestEnd seg - 1))))
                              (longestLinkCount seg) (totalLinks seg)]\<rparr>
                    else st1)
                 in case gtfsStopTimes trip of
                      None \<Rightarrow> Inl KeyError
                    | Some stopTimes \<Rightarrow>
                        (let ourGTFSNodes =
                               take (longestEnd seg - nat (longestStart seg))
                                 (drop (nat (longestStart seg)) treeNodes)
                         in case build_subgraph vistaNetwork (vistaNode_var st2) ourGTFSNodes of
                              Inl e \<Rightarrow> Inl e
                            | Inr b \<Rightarrow>
                                assign_trip problemReport constructPath vistaNetwork tripID
                                  (shapeID se) (longestStart seg) ourGTFSNodes stopTimes b
                                  (st2\<lparr>stderr_log := stderr_log st2 @ build_log b @ [InfoMapping],
                                      vistaNode_var := vistaNode b\<rparr>)))
              else Inr (st1\<lparr>stderr_log := stderr_log st1 @ [WarnNoLinks tripID]\<rparr>))))"

text \<open>
  \<^verbatim>\<open>gtfsTrips\<close> is a dictionary from trip identifiers to trips, given as an association
  list; \<^verbatim>\<open>tripIDs = gtfsTrips.keys(); tripIDs.sort()\<close>.
\<close>

definition sorted_tripIDs :: "(int \<times> TripsEntry) list \<Rightarrow> int list" where
  "sorted_tripIDs gtfsTrips = sort (remdups (map fst gtfsTrips))"

fun run_trips ::
  "bool \<Rightarrow> (ShapesEntry list \<Rightarrow> GraphLib \<Rightarrow> py_error + PathEnd list)
     \<Rightarrow> (int \<times> TripsEntry) list \<Rightarrow> (int \<rightharpoonup> PathEnd list)
     \<Rightarrow> (TripsEntry \<rightharpoonup> StopTimesEntry list) \<Rightarrow> GraphLib
     \<Rightarrow> int list \<Rightarrow> run_state \<Rightarrow> py_error + run_state" where
  "run_trips problemReport constructPath gtfsTrips gtfsNodes gtfsStopTimes vistaNetwork [] st = Inr st"
| "run_trips problemReport constructPath gtfsTrips gtfsNodes gtfsStopTimes vistaNetwork
      (tripID # rest) st =
     (case map_of gtfsTrips tripID of
        None \<Rightarrow> Inl KeyError
      | Some trip \<Rightarrow>
          (case process_trip problemReport constructPath gtfsNodes gtfsStopTimes vistaNetwork
                  tripID trip st of
             Inl e \<Rightarrow> Inl e
           | Inr st' \<Rightarrow>
               run_trips problemReport constructPath gtfsTrips gtfsNodes gtfsStopTimes
                 vistaNetwork rest st'))"

definition initial_state :: run_state where
  "initial_state =
     \<lparr>ret = Map.empty, problemReportNodes = Map.empty, outFile = [], stderr_log = [],
      vistaNode_var = None\<rparr>"

text \<open>
  The function as a whole; its Python result is the field \<open>ret\<close> of the final state. The
  hand-over of the accumulator to \<^verbatim>\<open>problem_report.problemReport\<close> (lines 401--411)
  changes none of the fields and is not modelled.
\<close>

definition dumpBusRouteLinks ::
  "bool \<Rightarrow> (ShapesEntry list \<Rightarrow> GraphLib \<Rightarrow> py_error + PathEnd list)
     \<Rightarrow> (int \<times> TripsEntry) list \<Rightarrow> (int \<rightharpoonup> PathEnd list)
     \<Rightarrow> (TripsEntry \<rightharpoonup> StopTimesEntry list) \<Rightarrow> GraphLib \<Rightarrow> py_error + run_state" where
  "dumpBusRouteLinks problemReport constructPath gtfsTrips gtfsNodes gtfsStopTimes vistaNetwork =
     run_trips problemReport constructPath gtfsTrips gtfsNodes gtfsStopTimes vistaNetwork
       (sorted_tripIDs gtfsTrips) initial_state"

section \<open>The frequency table (lines 511--522 of main)\<close>

text \<open>
  Times are \<^verbatim>\<open>datetime\<close> values parsed from \<^verbatim>\<open>HH:MM:SS\<close> text and are modelled as whole
  seconds. \<^verbatim>\<open>int(x / 86400)\<close> truncates a positive quotient, which is \<open>div\<close>.
\<close>

record frequency_row =
  fr_route :: int
  fr_period :: int
  fr_frequency :: int
  fr_offsettime :: int
  fr_preemption :: int

definition frequency_offset :: "int \<Rightarrow> int \<Rightarrow> int" where
  "frequency_offset refTime stopTime =
     (let stopTime1 =
            (if stopTime < refTime
             then stopTime + 86400 * ((refTime - stopTime) div 86400 + 1)
             else stopTime)
      in stopTime1 - refTime)"

fun frequency_rows ::
  "(int \<times> TripsEntry) list \<Rightarrow> (TripsEntry \<rightharpoonup> StopTimesEntry list) \<Rightarrow> int \<Rightarrow> int list
     \<Rightarrow> py_error + frequency_row list" where
  "frequency_rows gtfsTrips gtfsStopTimes refTime [] = Inr []"
| "frequency_rows gtfsTrips gtfsStopTimes refTime (tripID # rest) =
     (case map_of gtfsTrips tripID of
        None \<Rightarrow> Inl KeyError
      | Some trip \<Rightarrow>
          (case gtfsStopTimes trip of
             None \<Rightarrow> Inl KeyError
           | Some [] \<Rightarrow> Inl IndexError
           | Some (first # _) \<Rightarrow>
               (case frequency_rows gtfsTrips gtfsStopTimes refTime rest of
                  Inl e \<Rightarrow> Inl e
                | Inr rows \<Rightarrow>
                    Inr (\<lparr>fr_route = tripID, fr_period = 1, fr_frequency = 86400,
                          fr_offsettime = frequency_offset refTime (stop_time first),
                          fr_preemption = 0\<rparr> # rows))))"

definition dumpBusFrequency ::
  "(int \<times> TripsEntry) list \<Rightarrow> (TripsEntry \<rightharpoonup> StopTimesEntry list) \<Rightarrow> int
     \<Rightarrow> py_error + frequency_row list" where
  "dumpBusFrequency gtfsTrips gtfsStopTimes refTime =
     frequency_rows gtfsTrips gtfsStopTimes refTime (sorted_tripIDs gtfsTrips)"

section \<open>Loop invariants and example inputs\<close>

text \<open>
  The invariant of the interval scan before the iteration with \<open>curIndex = c\<close>:
  \<open>startIndex\<close> is the last boundary before \<open>c\<close>, the recorded interval is a run that
  ends no later than \<open>startIndex\<close>, and every run that ends no later than \<open>startIndex\<close>
  is no longer than the recorded one, and strictly shorter if it starts earlier.
\<close>

definition seg_inv :: "PathEnd list \<Rightarrow> nat \<Rightarrow> seg_state \<Rightarrow> bool" where
  "seg_inv t c s \<longleftrightarrow>
     (c = 0 \<longrightarrow> startIndex s = -1) \<and>
     (0 < c \<longrightarrow> 0 \<le> startIndex s \<and> nat (startIndex s) < c \<and> boundary t (nat (startIndex s))
        \<and> (\<forall>i. nat (startIndex s) < i \<and> i < c \<and> i < length t \<longrightarrow> \<not> restart (t ! i))) \<and>
     (c = length t + 1 \<longrightarrow> startIndex s = int (length t)) \<and>
     (longestStart s < 0 \<longrightarrow> longestStart s = -1 \<and> longestDist s = float_info_min) \<and>
     (0 \<le> longestStart s \<longrightarrow>
        is_run t (nat (longestStart s)) (longestEnd s) \<and> int (longestEnd s) \<le> startIndex s
        \<and> longestDist s = run_span t (nat (longestStart s)) (longestEnd s)
        \<and> float_info_min < longestDist s) \<and>
     (\<forall>a e. is_run t a e \<and> int e \<le> startIndex s \<longrightarrow>
        run_span t a e \<le> longestDist s
        \<and> (0 \<le> longestStart s \<and> int a < longestStart s \<longrightarrow> run_span t a e < longestDist s))"


text \<open>Small concrete networks and tree nodes for the closed instances below.\<close>

definition ex_gnode :: "int \<Rightarrow> GraphNode" where
  "ex_gnode i = \<lparr>node_id = i, gpsLat = 0, gpsLng = 0\<rparr>"

definition ex_link :: "int \<Rightarrow> int \<Rightarrow> int \<Rightarrow> GraphLink" where
  "ex_link l a b = \<lparr>link_id = l, origNode = ex_gnode a, destNode = ex_gnode b\<rparr>"

definition ex_node :: "int \<Rightarrow> GraphLink \<Rightarrow> real \<Rightarrow> GraphLink list \<Rightarrow> bool \<Rightarrow> real \<Rightarrow> PathEnd" where
  "ex_node sq l rd ri rs td =
     \<lparr>shapeEntry = \<lparr>shapeID = 1, shapeSeq = sq, lat = 0, lng = 0\<rparr>,
      pointOnLink = \<lparr>link = l, link_dist = 0, nonPerpPenalty = 0, refDist = rd\<rparr>,
      routeInfo = ri, restart = rs, totalDist = td, totalCost = 0\<rparr>"

text \<open>A single matched position: one run, of span 0.\<close>

definition ex_single :: "PathEnd list" where
  "ex_single = [ex_node 0 (ex_link 1 1 2) 0 [] False 0]"

text \<open>Seven positions with a restart at index 2: a run of two and a run of five.\<close>

definition ex_two_runs :: "PathEnd list" where
  "ex_two_runs =
     [ex_node 0 (ex_link 1 1 2) 0 [] False 0,
      ex_node 1 (ex_link 1 1 2) 0 [] False 1,
      ex_node 2 (ex_link 3 2 3) 0 [] True 1,
      ex_node 3 (ex_link 3 2 3) 0 [] False 2,
      ex_node 4 (ex_link 4 3 4) 0 [ex_link 4 3 4] False 3,
      ex_node 5 (ex_link 4 3 4) 0 [] False 4,
      ex_node 6 (ex_link 5 4 5) 0 [ex_link 5 4 5] False 6]"

text \<open>Three positions and no restart.\<close>

definition ex_one_run :: "PathEnd list" where
  "ex_one_run =
     [ex_node 0 (ex_link 1 1 2) 0 [] False 0,
      ex_node 1 (ex_link 1 1 2) 0 [] False 2,
      ex_node 2 (ex_link 2 2 3) 0 [ex_link 2 2 3] False 5]"

text \<open>
  A base network of five links, \<open>1: 1 \<rightarrow> 2\<close>, \<open>2: 2 \<rightarrow> 1\<close>, \<open>3: 2 \<rightarrow> 3\<close>, \<open>4: 3 \<rightarrow> 4\<close>
  and \<open>5: 4 \<rightarrow> 5\<close>, and a path that crosses itself: it runs over link 1, link 2, link 1
  again and link 3.
\<close>

definition ex_net :: GraphLib where
  "ex_net = \<lparr>latCtr = 0, lngCtr = 0,
     nodeList = [ex_gnode 1, ex_gnode 2, ex_gnode 3, ex_gnode 4, ex_gnode 5],
     linkList = [ex_link 1 1 2, ex_link 2 2 1, ex_link 3 2 3, ex_link 4 3 4, ex_link 5 4 5]\<rparr>"

definition ex_crossing :: "PathEnd list" where
  "ex_crossing =
     [ex_node 0 (ex_link 1 1 2) 0 [] False 0,
      ex_node 1 (ex_link 2 2 1) 0 [ex_link 2 2 1] False 1,
      ex_node 2 (ex_link 1 1 2) 0 [ex_link 1 1 2] False 2,
      ex_node 3 (ex_link 3 2 3) 0 [ex_link 3 2 3] False 3]"

text \<open>
  The vocabulary of the per-link scan: the identifier of the link an entry was matched
  to, and the choice that line 346 is meant to make among the entries of a block
  (the smallest reference distance, the earlier entry on a tie), starting from \<open>b\<close>.
\<close>

definition entry_link :: "PathEnd \<Rightarrow> int" where
  "entry_link e = link_id (link (pointOnLink e))"

definition entry_seq :: "PathEnd \<Rightarrow> int" where
  "entry_seq e = shapeSeq (shapeEntry e)"

fun best_fold :: "PathEnd option \<Rightarrow> PathEnd list \<Rightarrow> PathEnd option" where
  "best_fold b [] = b"
| "best_fold b (e # es) =
     best_fold (case b of
                  None \<Rightarrow> Some e
                | Some x \<Rightarrow> if refDist (pointOnLink e) < refDist (pointOnLink x)
                            then Some e else Some x) es"

definition skipped_entries :: "PathEnd list \<Rightarrow> int \<Rightarrow> nat \<Rightarrow> PathEnd list" where
  "skipped_entries resultTree linkID r =
     takeWhile (\<lambda>e. entry_link e \<noteq> linkID) (drop r resultTree)"

definition matched_block :: "PathEnd list \<Rightarrow> int \<Rightarrow> nat \<Rightarrow> PathEnd list" where
  "matched_block resultTree linkID r =
     takeWhile (\<lambda>e. entry_link e = linkID)
       (drop (r + length (skipped_entries resultTree linkID r)) resultTree)"

text \<open>
  Result entries for the scan: a stop matched to link 2, two stops matched to link 1, a
  stop matched to link 3 and one more matched to link 1.
\<close>

definition ex_entry :: "int \<Rightarrow> int \<Rightarrow> real \<Rightarrow> PathEnd" where
  "ex_entry sq l rd = ex_node sq (ex_link l 0 0) rd [] False 0"

definition ex_results :: "PathEnd list" where
  "ex_results = [ex_entry 1 2 5, ex_entry 2 1 1, ex_entry 3 1 3, ex_entry 4 3 0, ex_entry 5 1 0]"

text \<open>
  A stand-in for the path engine, for the closed instances only: it places every query
  point on the link of the small network whose identifier is nearest to the point's
  latitude, and takes the point's longitude as the reference distance. Stops are laid
  out accordingly: a stop with latitude 1 lies on link 1.
\<close>

definition ex_constructPath :: "ShapesEntry list \<Rightarrow> GraphLib \<Rightarrow> py_error + PathEnd list" where
  "ex_constructPath shapes g =
     (if linkList g = [] then Inl PathEngineError
      else Inr (map (\<lambda>se.
             \<lparr>shapeEntry = se,
              pointOnLink =
                \<lparr>link = arg_min_list (\<lambda>l. \<bar>real_of_int (link_id l) - lat se\<bar>) (linkList g),
                 link_dist = 0, nonPerpPenalty = 0, refDist = lng se\<rparr>,
              routeInfo = [], restart = False, totalDist = 0, totalCost = 0\<rparr>) shapes))"

definition ex_stop_time :: "int \<Rightarrow> int \<Rightarrow> real \<Rightarrow> real \<Rightarrow> StopTimesEntry" where
  "ex_stop_time sq sid la rd =
     \<lparr>stopSeq = sq, stop_time = 0,
      stop = \<lparr>stopID = sid, stopName = [], stop_gpsLat = la, stop_gpsLng = rd,
              pointX = 0, pointY = 0\<rparr>\<rparr>"

definition ex_trip :: "int \<Rightarrow> int \<Rightarrow> TripsEntry" where
  "ex_trip k sid = \<lparr>trip_key = k, shapeEntries = [\<lparr>shapeID = sid, shapeSeq = 0, lat = 0, lng = 0\<rparr>]\<rparr>"

text \<open>
  Trip 7 follows shape 1 (the self-crossing path), trip 8 shape 2 (the path with a
  restart), trip 9 a shape that the path-match file does not hold.
\<close>

definition ex_gtfsTrips :: "(int \<times> TripsEntry) list" where
  "ex_gtfsTrips = [(8, ex_trip 8 2), (7, ex_trip 7 1), (9, ex_trip 9 99)]"

definition ex_gtfsNodes :: "int \<rightharpoonup> PathEnd list" where
  "ex_gtfsNodes = [1 \<mapsto> ex_crossing, 2 \<mapsto> ex_two_runs]"

text \<open>
  Trip 7 calls at stops 101 (link 1), 102 (link 2), 103 (link 1 again) and 500, which
  lies between links 3 and 4; trip 8 calls at stop 500 only.
\<close>

definition ex_gtfsStopTimes :: "TripsEntry \<rightharpoonup> StopTimesEntry list" where
  "ex_gtfsStopTimes trip =
     (if trip_key trip = 7
      then Some [ex_stop_time 1 101 1 1, ex_stop_time 2 102 2 1, ex_stop_time 3 103 1 1,
                 ex_stop_time 4 500 (18 / 5) 1]
      else if trip_key trip = 8 then Some [ex_stop_time 1 500 (18 / 5) 1]
      else if trip_key trip = 9 then Some [ex_stop_time 1 101 1 1]
      else None)"

text \<open>
  Another schedule for trip 7: stop 101 on link 2, then stops 102 and 103 both on link 1,
  at reference distances 1 and 3 (stop 101 at 5).
\<close>

definition ex_gtfsStopTimes_dup :: "TripsEntry \<rightharpoonup> StopTimesEntry list" where
  "ex_gtfsStopTimes_dup trip =
     (if trip_key trip = 7
      then Some [ex_stop_time 1 101 2 5, ex_stop_time 2 102 1 1, ex_stop_time 3 103 1 3]
      else None)"

text \<open>
  \<open>link_kept m m'\<close>: every stop that \<open>m\<close> assigns is still assigned by \<open>m'\<close>, to a
  point on the link with the same identifier.
\<close>

definition link_kept :: "(int \<rightharpoonup> PointOnLink) \<Rightarrow> (int \<rightharpoonup> PointOnLink) \<Rightarrow> bool" where
  "link_kept m m' \<longleftrightarrow>
     (\<forall>sid p. m sid = Some p \<longrightarrow> (\<exists>p'. m' sid = Some p' \<and> link_id (link p') = link_id (link p)))"

definition ex_point :: "int \<Rightarrow> PointOnLink" where
  "ex_point l = \<lparr>link = ex_link l 0 0, link_dist = 0, nonPerpPenalty = 0, refDist = 0\<rparr>"

text \<open>What the closed instances read off a final state: rows, messages, and the link of a stop.\<close>

definition stop_link :: "run_state \<Rightarrow> int \<Rightarrow> int option" where
  "stop_link s sid = map_option (\<lambda>p. link_id (link p)) (ret s sid)"

definition ex_summary :: "py_error + run_state \<Rightarrow> (route_link_row list \<times> log_msg list \<times> int option list) option" where
  "ex_summary r =
     (case r of
        Inl e \<Rightarrow> None
      | Inr s \<Rightarrow> Some (outFile s, stderr_log s, map (stop_link s) [101, 102, 103, 500]))"

text \<open>
  Two trips for the frequency table: the first stop of trip 1 is at 08:20:00, that of
  trip 2 at 00:16:40; the reference time used with them is 06:00:00.
\<close>

definition ex_timed_trips :: "(int \<times> TripsEntry) list" where
  "ex_timed_trips = [(2, ex_trip 2 1), (1, ex_trip 1 1)]"

definition ex_timed_stops :: "TripsEntry \<rightharpoonup> StopTimesEntry list" where
  "ex_timed_stops trip =
     (if trip_key trip = 1 then Some [(ex_stop_time 1 101 1 1)\<lparr>stop_time := 30000\<rparr>]
      else if trip_key trip = 2 then Some [(ex_stop_time 1 102 1 1)\<lparr>stop_time := 1000\<rparr>,
                                          (ex_stop_time 2 103 1 1)\<lparr>stop_time := 2000\<rparr>]
      else None)"


subsection \<open>The scan keeps the earliest run of greatest span\<close>

lemma float_info_min_pos: "0 < float_info_min"
  by (simp add: float_info_min_def)

lemma float_info_min_less_one: "float_info_min < 1"
proof -
  have "(1::real) < 2 ^ 1022" by (rule one_less_power) simp_all
  then show ?thesis by (simp add: float_info_min_def)
qed

lemma seg_inv_init: "seg_inv t 0 (segment_init t)"
  by (auto simp: seg_inv_def segment_init_def is_run_def)

lemma run_ending_at:
  assumes run: "is_run t a e" and bb: "boundary t b" and bc: "b < c" and cl: "c \<le> length t"
    and ec: "e \<le> c" and be: "b < e"
    and nores: "\<forall>i. b < i \<and> i < c \<and> i < length t \<longrightarrow> \<not> restart (t ! i)"
  shows "a = b \<and> e = c"
proof -
  have e_eq: "e = c"
  proof (rule ccontr)
    assume "e \<noteq> c"
    with ec have "e < c" by simp
    with be cl nores have "\<not> restart (t ! e)" by simp
    moreover from run \<open>e < c\<close> be cl have "restart (t ! e)"
      by (auto simp: is_run_def boundary_def)
    ultimately show False by simp
  qed
  have "\<not> a < b"
  proof
    assume "a < b"
    with be run have "\<not> restart (t ! b)" by (auto simp: is_run_def)
    moreover from bb \<open>a < b\<close> bc cl have "restart (t ! b)" by (auto simp: boundary_def)
    ultimately show False by simp
  qed
  moreover have "\<not> b < a"
  proof
    assume "b < a"
    from run e_eq have "a < c" by (simp add: is_run_def)
    with \<open>b < a\<close> cl nores have "\<not> restart (t ! a)" by simp
    moreover from run \<open>b < a\<close> \<open>a < c\<close> cl have "restart (t ! a)"
      by (auto simp: is_run_def boundary_def)
    ultimately show False by simp
  qed
  ultimately show ?thesis using e_eq by simp
qed

lemma seg_inv_step_skip:
  assumes inv: "seg_inv t c s" and c: "c < length t" "c \<noteq> 0" "\<not> restart (t ! c)"
  shows "seg_inv t (c + 1) (segment_step t c s)"
proof -
  have st: "segment_step t c s =
      s\<lparr>totalLinks := totalLinks s + length (routeInfo (t ! c)),
        linkCount := linkCount s + length (routeInfo (t ! c))\<rparr>"
    using c by (simp add: segment_step_def)
  have "\<And>i. nat (startIndex s) < i \<Longrightarrow> i < c + 1 \<Longrightarrow> i < length t \<Longrightarrow> \<not> restart (t ! i)"
  proof -
    fix i assume i: "nat (startIndex s) < i" "i < c + 1" "i < length t"
    show "\<not> restart (t ! i)"
    proof (cases "i = c")
      case True then show ?thesis using c by simp
    next
      case False
      with i have "i < c" by simp
      with inv i c show ?thesis by (simp add: seg_inv_def)
    qed
  qed
  with inv c show ?thesis
    unfolding st seg_inv_def by auto
qed

lemma seg_inv_step_first:
  assumes inv: "seg_inv t 0 s"
  shows "seg_inv t (0 + 1) (segment_step t 0 s)"
proof -
  from inv have si: "startIndex s = -1" by (simp add: seg_inv_def)
  have st: "segment_step t 0 s =
      s\<lparr>totalLinks := totalLinks s + 1, linkCount := linkCount s + 1, startIndex := 0\<rparr>"
    using si by (simp add: segment_step_def Let_def)
  from inv si have neg: "longestStart s < 0" by (auto simp: seg_inv_def)
  have norun: "\<And>a e. is_run t a e \<Longrightarrow> \<not> int e \<le> 0" by (auto simp: is_run_def)
  from inv si neg norun show ?thesis
    unfolding st seg_inv_def by (auto simp: boundary_def)
qed

lemma seg_inv_step_boundary:
  assumes inv: "seg_inv t c s" and c: "0 < c" "c \<le> length t" and bd: "boundary t c"
  shows "seg_inv t (c + 1) (segment_step t c s)"
proof -
  define b where "b = nat (startIndex s)"
  from inv c have b: "startIndex s = int b" "b < c" "boundary t b"
    and nores: "\<forall>i. b < i \<and> i < c \<and> i < length t \<longrightarrow> \<not> restart (t ! i)"
    by (auto simp: seg_inv_def b_def)
  have run_bc: "is_run t b c"
    using b c bd nores by (auto simp: is_run_def)
  have cond: "c = length t \<or> c = 0 \<or> restart (t ! c)"
    using bd c by (auto simp: boundary_def)
  have sp: "totalDist (t ! (c - 1)) - totalDist (t ! nat (startIndex s)) = run_span t b c"
    by (simp add: run_span_def b)
  have runs: "\<And>a e. is_run t a e \<Longrightarrow> e \<le> c \<Longrightarrow> e \<le> b \<or> (a = b \<and> e = c)"
  proof -
    fix a e assume r: "is_run t a e" and "e \<le> c"
    show "e \<le> b \<or> (a = b \<and> e = c)"
    proof (cases "e \<le> b")
      case True then show ?thesis by simp
    next
      case False
      then have "b < e" by simp
      from run_ending_at [OF r b(3) b(2) c(2) \<open>e \<le> c\<close> this nores] show ?thesis by simp
    qed
  qed
  from inv have all_runs: "\<forall>a e. is_run t a e \<and> int e \<le> startIndex s \<longrightarrow>
        run_span t a e \<le> longestDist s
        \<and> (0 \<le> longestStart s \<and> int a < longestStart s \<longrightarrow> run_span t a e < longestDist s)"
    unfolding seg_inv_def by blast
  have old: "\<And>a e. is_run t a e \<Longrightarrow> e \<le> b \<Longrightarrow> run_span t a e \<le> longestDist s
        \<and> (0 \<le> longestStart s \<and> int a < longestStart s \<longrightarrow> run_span t a e < longestDist s)"
  proof -
    fix a e assume "is_run t a e" "e \<le> b"
    then have "is_run t a e \<and> int e \<le> startIndex s" by (simp add: b)
    with all_runs show "run_span t a e \<le> longestDist s
        \<and> (0 \<le> longestStart s \<and> int a < longestStart s \<longrightarrow> run_span t a e < longestDist s)"
      by blast
  qed
  from inv have lneg: "longestStart s < 0 \<Longrightarrow> longestStart s = -1 \<and> longestDist s = float_info_min"
    and lpos: "0 \<le> longestStart s \<Longrightarrow> is_run t (nat (longestStart s)) (longestEnd s) \<and> longestEnd s \<le> b
        \<and> longestDist s = run_span t (nat (longestStart s)) (longestEnd s)
        \<and> float_info_min < longestDist s"
    by (auto simp: seg_inv_def b)
  have fmin: "float_info_min \<le> longestDist s"
    using lneg lpos by (cases "longestStart s < 0") auto
  show ?thesis
  proof (cases "run_span t b c > longestDist s")
    case True
    have st: "segment_step t c s =
      s\<lparr>totalLinks := totalLinks s + 1, longestStart := int b, longestEnd := c,
        longestDist := run_span t b c, longestLinkCount := linkCount s + 1, linkCount := 0,
        startIndex := int c\<rparr>"
      using cond True b sp by (simp add: segment_step_def Let_def)
    have new: "\<And>a e. is_run t a e \<Longrightarrow> e \<le> c \<Longrightarrow>
        run_span t a e \<le> run_span t b c \<and> (a < b \<longrightarrow> run_span t a e < run_span t b c)"
    proof -
      fix a e assume r: "is_run t a e" and e: "e \<le> c"
      from runs [OF r e] show "run_span t a e \<le> run_span t b c \<and> (a < b \<longrightarrow> run_span t a e < run_span t b c)"
      proof
        assume "e \<le> b"
        from old [OF r this] True show ?thesis by simp
      next
        assume "a = b \<and> e = c"
        then show ?thesis by simp
      qed
    qed
    show ?thesis
      unfolding st seg_inv_def using run_bc b c nores True fmin new bd
      by (auto simp: boundary_def)
  next
    case False
    have st: "segment_step t c s =
      s\<lparr>totalLinks := totalLinks s + 1, linkCount := linkCount s + 1, startIndex := int c\<rparr>"
      using cond False b sp by (simp add: segment_step_def Let_def)
    have new: "\<And>a e. is_run t a e \<Longrightarrow> e \<le> c \<Longrightarrow>
        run_span t a e \<le> longestDist s
        \<and> (0 \<le> longestStart s \<and> int a < longestStart s \<longrightarrow> run_span t a e < longestDist s)"
    proof -
      fix a e assume r: "is_run t a e" and e: "e \<le> c"
      from runs [OF r e] show "run_span t a e \<le> longestDist s
        \<and> (0 \<le> longestStart s \<and> int a < longestStart s \<longrightarrow> run_span t a e < longestDist s)"
      proof
        assume "e \<le> b"
        from old [OF r this] show ?thesis .
      next
        assume ab: "a = b \<and> e = c"
        have "\<not> (0 \<le> longestStart s \<and> int a < longestStart s)"
        proof
          assume h: "0 \<le> longestStart s \<and> int a < longestStart s"
          with lpos have "is_run t (nat (longestStart s)) (longestEnd s)" "longestEnd s \<le> b" by auto
          then have "nat (longestStart s) < b" by (simp add: is_run_def)
          with h ab show False by linarith
        qed
        with ab False show ?thesis by auto
      qed
    qed
    show ?thesis
      unfolding st seg_inv_def using b c nores lneg lpos new bd
      by (auto simp: boundary_def)
  qed
qed

lemma seg_inv_step:
  assumes inv: "seg_inv t c s" and c: "c \<le> length t"
  shows "seg_inv t (c + 1) (segment_step t c s)"
proof (cases "c = 0")
  case True
  with inv seg_inv_step_first [of t s] show ?thesis by simp
next
  case False
  show ?thesis
  proof (cases "boundary t c")
    case True
    from False have "0 < c" by simp
    from seg_inv_step_boundary [OF inv this c True] show ?thesis .
  next
    case nb: False
    with c False have "c < length t" "\<not> restart (t ! c)" by (auto simp: boundary_def)
    from seg_inv_step_skip [OF inv this(1) False this(2)] show ?thesis .
  qed
qed

lemma seg_inv_scan:
  "seg_inv t c s \<Longrightarrow> c \<le> length t + 1 \<Longrightarrow> seg_inv t (length t + 1) (segment_scan t c s)"
proof (induction t c s rule: segment_scan.induct)
  case (1 t c s)
  show ?case
  proof (cases "c \<le> length t")
    case True
    from "1.prems" True have "seg_inv t (c + 1) (segment_step t c s)" by (intro seg_inv_step)
    with True "1.IH" have "seg_inv t (length t + 1) (segment_scan t (c + 1) (segment_step t c s))"
      by simp
    with True show ?thesis by (simp add: segment_scan.simps [of t c s])
  next
    case False
    with "1.prems" have c: "c = length t + 1" by simp
    from False have "segment_scan t c s = s" by (simp add: segment_scan.simps [of t c s])
    with "1.prems" c show ?thesis by simp
  qed
qed

lemma longest_interval_inv: "seg_inv t (length t + 1) (longest_interval t)"
  unfolding longest_interval_def by (rule seg_inv_scan [OF seg_inv_init]) simp
subsection \<open>Claim C3: the selected interval\<close>

lemma only_run_without_restart:
  assumes nores: "\<forall>i \<in> {0<..<length t}. \<not> restart (t ! i)" and run: "is_run t a e"
  shows "a = 0 \<and> e = length t"
proof -
  from run have ae: "a < e" "e \<le> length t" and ba: "boundary t a" and be: "boundary t e"
    by (simp_all add: is_run_def)
  have "a = 0"
  proof (rule ccontr)
    assume "a \<noteq> 0"
    with ba ae have "restart (t ! a)" "a < length t" by (auto simp: boundary_def)
    with nores \<open>a \<noteq> 0\<close> show False by auto
  qed
  moreover have "e = length t"
  proof (rule ccontr)
    assume "e \<noteq> length t"
    with be ae have "restart (t ! e)" "0 < e" "e < length t" by (auto simp: boundary_def)
    with nores show False by auto
  qed
  ultimately show ?thesis by simp
qed

text \<open>
  Claim C3, as the code has it. The scan starts from \<^verbatim>\<open>longestDist = sys.float_info.min\<close>,
  a positive number, and replaces the recorded interval only by a strictly longer one.
  So: if an interval is selected (\<open>longestStart \<ge> 0\<close>), it is a run whose span exceeds
  that threshold, no run has a greater span, and every run that starts earlier has a
  strictly smaller span (the earliest run of greatest span is kept). If none is selected,
  \<open>longestStart\<close> is \<open>-1\<close> and no run has a span above the threshold. A non-empty
  sequence without interior restart flags whose span exceeds the threshold is selected
  whole.
\<close>

theorem longest_interval_earliest_maximal_run:
  assumes r: "longest_interval t = r"
  shows "(0 \<le> longestStart r \<longrightarrow>
            is_run t (nat (longestStart r)) (longestEnd r)
            \<and> float_info_min < run_span t (nat (longestStart r)) (longestEnd r)
            \<and> (\<forall>a e. is_run t a e \<longrightarrow>
                  run_span t a e \<le> run_span t (nat (longestStart r)) (longestEnd r)
                  \<and> (a < nat (longestStart r) \<longrightarrow>
                        run_span t a e < run_span t (nat (longestStart r)) (longestEnd r))))
       \<and> (longestStart r < 0 \<longrightarrow>
            longestStart r = -1 \<and> (\<forall>a e. is_run t a e \<longrightarrow> run_span t a e \<le> float_info_min))
       \<and> (t \<noteq> [] \<and> (\<forall>i \<in> {0<..<length t}. \<not> restart (t ! i))
            \<and> float_info_min < run_span t 0 (length t) \<longrightarrow>
            longestStart r = 0 \<and> longestEnd r = length t)"
proof -
  from longest_interval_inv [of t] r have inv: "seg_inv t (length t + 1) r" by simp
  then have si: "startIndex r = int (length t)" by (simp add: seg_inv_def)
  from inv have all_runs: "\<forall>a e. is_run t a e \<and> int e \<le> startIndex r \<longrightarrow>
        run_span t a e \<le> longestDist r
        \<and> (0 \<le> longestStart r \<and> int a < longestStart r \<longrightarrow> run_span t a e < longestDist r)"
    unfolding seg_inv_def by blast
  have every: "\<And>a e. is_run t a e \<Longrightarrow> run_span t a e \<le> longestDist r
        \<and> (0 \<le> longestStart r \<and> int a < longestStart r \<longrightarrow> run_span t a e < longestDist r)"
  proof -
    fix a e assume run: "is_run t a e"
    then have "int e \<le> startIndex r" by (simp add: si is_run_def)
    with run all_runs show "run_span t a e \<le> longestDist r
        \<and> (0 \<le> longestStart r \<and> int a < longestStart r \<longrightarrow> run_span t a e < longestDist r)"
      by blast
  qed
  from inv have lneg: "longestStart r < 0 \<Longrightarrow> longestStart r = -1 \<and> longestDist r = float_info_min"
    and lpos: "0 \<le> longestStart r \<Longrightarrow> is_run t (nat (longestStart r)) (longestEnd r)
        \<and> longestDist r = run_span t (nat (longestStart r)) (longestEnd r)
        \<and> float_info_min < longestDist r"
    by (auto simp: seg_inv_def)
  have part1: "0 \<le> longestStart r \<longrightarrow>
            is_run t (nat (longestStart r)) (longestEnd r)
            \<and> float_info_min < run_span t (nat (longestStart r)) (longestEnd r)
            \<and> (\<forall>a e. is_run t a e \<longrightarrow>
                  run_span t a e \<le> run_span t (nat (longestStart r)) (longestEnd r)
                  \<and> (a < nat (longestStart r) \<longrightarrow>
                        run_span t a e < run_span t (nat (longestStart r)) (longestEnd r)))"
  proof
    assume pos: "0 \<le> longestStart r"
    from lpos [OF pos] have eq: "longestDist r = run_span t (nat (longestStart r)) (longestEnd r)"
      by simp
    have "\<And>a e. is_run t a e \<Longrightarrow>
            run_span t a e \<le> longestDist r \<and> (a < nat (longestStart r) \<longrightarrow> run_span t a e < longestDist r)"
    proof -
      fix a e assume run: "is_run t a e"
      from pos have "a < nat (longestStart r) \<Longrightarrow> int a < longestStart r" by linarith
      with every [OF run] pos
      show "run_span t a e \<le> longestDist r \<and> (a < nat (longestStart r) \<longrightarrow> run_span t a e < longestDist r)"
        by blast
    qed
    with lpos [OF pos] show "is_run t (nat (longestStart r)) (longestEnd r)
            \<and> float_info_min < run_span t (nat (longestStart r)) (longestEnd r)
            \<and> (\<forall>a e. is_run t a e \<longrightarrow>
                  run_span t a e \<le> run_span t (nat (longestStart r)) (longestEnd r)
                  \<and> (a < nat (longestStart r) \<longrightarrow>
                        run_span t a e < run_span t (nat (longestStart r)) (longestEnd r)))"
      unfolding eq by blast
  qed
  have part2: "longestStart r < 0 \<longrightarrow>
            longestStart r = -1 \<and> (\<forall>a e. is_run t a e \<longrightarrow> run_span t a e \<le> float_info_min)"
  proof
    assume neg: "longestStart r < 0"
    from lneg [OF neg] have eq: "longestDist r = float_info_min" and m1: "longestStart r = -1"
      by simp_all
    from every have "\<forall>a e. is_run t a e \<longrightarrow> run_span t a e \<le> longestDist r" by blast
    with m1 show "longestStart r = -1 \<and> (\<forall>a e. is_run t a e \<longrightarrow> run_span t a e \<le> float_info_min)"
      unfolding eq by simp
  qed
  have part3: "t \<noteq> [] \<and> (\<forall>i \<in> {0<..<length t}. \<not> restart (t ! i))
            \<and> float_info_min < run_span t 0 (length t) \<longrightarrow>
            longestStart r = 0 \<and> longestEnd r = length t"
  proof
    assume h: "t \<noteq> [] \<and> (\<forall>i \<in> {0<..<length t}. \<not> restart (t ! i))
            \<and> float_info_min < run_span t 0 (length t)"
    then have whole: "is_run t 0 (length t)" by (auto simp: is_run_def boundary_def)
    have "0 \<le> longestStart r"
    proof (rule ccontr)
      assume "\<not> 0 \<le> longestStart r"
      with part2 whole have "run_span t 0 (length t) \<le> float_info_min" by auto
      with h show False by simp
    qed
    with part1 have "is_run t (nat (longestStart r)) (longestEnd r)" by simp
    from only_run_without_restart [OF _ this] h \<open>0 \<le> longestStart r\<close>
    show "longestStart r = 0 \<and> longestEnd r = length t" by auto
  qed
  from part1 part2 part3 show ?thesis by blast
qed

lemma ex_two_runs_eval:
  "longest_interval ex_two_runs =
     \<lparr>startIndex = 7, linkCount = 0, totalLinks = 5, longestStart = 2, longestEnd = 7,
      longestDist = 5, longestLinkCount = 3\<rparr>"
  by (simp add: longest_interval_def segment_scan.simps segment_step_def segment_init_def
      Let_def ex_two_runs_def ex_node_def float_info_min_def)

lemma ex_one_run_eval:
  "longest_interval ex_one_run =
     \<lparr>startIndex = 3, linkCount = 0, totalLinks = 3, longestStart = 0, longestEnd = 3,
      longestDist = 5, longestLinkCount = 3\<rparr>"
  by (simp add: longest_interval_def segment_scan.simps segment_step_def segment_init_def
      Let_def ex_one_run_def ex_node_def float_info_min_def)

lemma ex_single_eval:
  "longest_interval ex_single =
     \<lparr>startIndex = 1, linkCount = 2, totalLinks = 2, longestStart = -1, longestEnd = 1,
      longestDist = float_info_min, longestLinkCount = 0\<rparr>"
  using float_info_min_pos
  by (simp add: longest_interval_def segment_scan.simps segment_step_def segment_init_def
      Let_def ex_single_def ex_node_def)

lemma ex_runs:
  "is_run ex_two_runs 0 2" "is_run ex_two_runs 2 7" "is_run ex_one_run 0 3" "is_run ex_single 0 1"
  by (auto simp: is_run_def boundary_def ex_two_runs_def ex_one_run_def ex_single_def ex_node_def
      nth_Cons' greaterThanLessThan_def greaterThan_def lessThan_def)

text \<open>
  Claim C3 as stated fails on a sequence of one position: it is not empty and has no
  interior restart flag, its only run has span 0, and the scan selects nothing.
\<close>

theorem longest_interval_counterexample:
  "ex_single \<noteq> [] \<and> is_run ex_single 0 1
     \<and> longestStart (longest_interval ex_single) = -1
     \<and> \<not> (longestStart (longest_interval ex_single) = 0
           \<and> longestEnd (longest_interval ex_single) = length ex_single)"
  using ex_runs(4) by (simp add: ex_single_eval) (simp add: ex_single_def)

text \<open>
  The theorem at three inputs: a run of two positions followed by a longer run of five
  (the second is selected), a sequence without restart (selected whole), and the single
  position (nothing selected).
\<close>

theorem longest_interval_earliest_maximal_run_witness:
  "longestStart (longest_interval ex_two_runs) = 2
     \<and> longestEnd (longest_interval ex_two_runs) = 7
     \<and> is_run ex_two_runs 0 2 \<and> is_run ex_two_runs 2 7
     \<and> run_span ex_two_runs 0 2 < run_span ex_two_runs 2 7
     \<and> float_info_min < run_span ex_two_runs 2 7
     \<and> longestStart (longest_interval ex_one_run) = 0
     \<and> longestEnd (longest_interval ex_one_run) = length ex_one_run
     \<and> longestStart (longest_interval ex_single) = -1
     \<and> run_span ex_single 0 1 \<le> float_info_min"
proof -
  have a: "0 \<le> longestStart (longest_interval ex_two_runs)" by (simp add: ex_two_runs_eval)
  have b: "ex_one_run \<noteq> [] \<and> (\<forall>i \<in> {0<..<length ex_one_run}. \<not> restart (ex_one_run ! i))
            \<and> float_info_min < run_span ex_one_run 0 (length ex_one_run)"
    using float_info_min_less_one
    by (auto simp: ex_one_run_def ex_node_def run_span_def nth_Cons')
  have c: "longestStart (longest_interval ex_single) < 0" by (simp add: ex_single_eval)
  from longest_interval_earliest_maximal_run [OF refl, of ex_two_runs] a ex_runs(1)
  have "run_span ex_two_runs 0 2 < run_span ex_two_runs 2 7
     \<and> float_info_min < run_span ex_two_runs 2 7"
    by (simp add: ex_two_runs_eval)
  moreover from longest_interval_earliest_maximal_run [OF refl, of ex_one_run] b
  have "longestStart (longest_interval ex_one_run) = 0
     \<and> longestEnd (longest_interval ex_one_run) = length ex_one_run"
    by blast
  moreover from longest_interval_earliest_maximal_run [OF refl, of ex_single] c ex_runs(4)
  have "run_span ex_single 0 1 \<le> float_info_min" by blast
  ultimately show ?thesis
    using ex_runs by (simp add: ex_two_runs_eval ex_single_eval)
qed

subsection \<open>Claim C4: no link identifier is inserted twice\<close>

lemma linkMap_None_iff: "linkMap g i = None \<longleftrightarrow> i \<notin> link_id ` set (linkList g)"
  by (simp add: linkMap_def map_of_eq_None_iff image_image)

lemma distinct_addLink:
  "distinct (map link_id (linkList g)) \<Longrightarrow> linkMap g (link_id l) = None
     \<Longrightarrow> distinct (map link_id (linkList (addLink g l)))"
  by (simp add: addLink_def linkMap_None_iff)

lemma linkList_addNode [simp]: "linkList (addNode g n) = linkList g"
  by (simp add: addNode_def)

lemma add_route_links_distinct:
  "distinct (map link_id (linkList (vistaSubset b)))
     \<Longrightarrow> distinct (map link_id (linkList (vistaSubset (add_route_links net ls b))))"
proof (induction ls arbitrary: b)
  case Nil
  then show ?case by simp
next
  case (Cons l ls)
  show ?case
  proof (cases "linkMap net (link_id l)")
    case None
    with Cons show ?thesis by simp
  next
    case (Some origVistaLink)
    show ?thesis
      using Some Cons.prems
      by (auto simp: Let_def split: option.splits intro!: Cons.IH distinct_addLink)
  qed
qed

lemma add_tree_nodes_distinct:
  "distinct (map link_id (linkList (vistaSubset b)))
     \<Longrightarrow> distinct (map link_id (linkList (vistaSubset (add_tree_nodes net f ns b))))"
  by (induction ns arbitrary: b) (auto simp: add_route_links_distinct)

text \<open>
  Claim C4. \<open>linkList\<close> records every call of \<^verbatim>\<open>addLink\<close> on the trip's small network.
  Whenever the builder returns, the identifiers of the inserted links are pairwise
  distinct: each of the two insertion sites is guarded by
  \<^verbatim>\<open>outLinkIDList[-1] not in vistaSubset.linkMap\<close>, also for a path that comes back to
  a node or a link.
\<close>

theorem build_subgraph_distinct_links:
  assumes "build_subgraph vistaNetwork vistaNode0 ourGTFSNodes = Inr b"
  shows "distinct (map link_id (linkList (vistaSubset b)))"
proof (cases "ourGTFSNodes = []")
  case True
  with assms show ?thesis by (simp add: build_subgraph_def)
next
  case False
  define first where "first = hd ourGTFSNodes"
  define b0 where "b0 = \<lparr>vistaSubset =
       addNode (new_GraphLib (latCtr vistaNetwork) (lngCtr vistaNetwork))
         (new_GraphNode (origNode (link (pointOnLink first)))),
     vistaNodePrior = new_GraphNode (origNode (link (pointOnLink first))),
     vistaNode = vistaNode0,
     outLinkIDList = [link_id (link (pointOnLink first))],
     build_log = []\<rparr>"
  define b1 where "b1 = add_tree_nodes vistaNetwork (link_id (link (pointOnLink first))) ourGTFSNodes b0"
  define endNode where "endNode = destNode (link (pointOnLink (last ourGTFSNodes)))"
  define b2 where "b2 = (if nodeMap (vistaSubset b1) (node_id endNode) = None
                     then b1\<lparr>vistaSubset := addNode (vistaSubset b1) (new_GraphNode endNode),
                             vistaNode := Some (new_GraphNode endNode)\<rparr>
                     else b1)"
  have "distinct (map link_id (linkList (vistaSubset b0)))"
    by (simp add: b0_def new_GraphLib_def)
  then have "distinct (map link_id (linkList (vistaSubset b1)))"
    unfolding b1_def by (rule add_tree_nodes_distinct)
  then have d2: "distinct (map link_id (linkList (vistaSubset b2)))"
    by (simp add: b2_def)
  have res: "build_subgraph vistaNetwork vistaNode0 ourGTFSNodes =
      (if linkMap (vistaSubset b2) (last (outLinkIDList b2)) = None
       then (case vistaNode b2 of
               None \<Rightarrow> Inl NameError
             | Some vn \<Rightarrow>
                 Inr (b2\<lparr>vistaSubset :=
                           addLink (vistaSubset b2)
                             \<lparr>link_id = last (outLinkIDList b2),
                              origNode = vistaNodePrior b2, destNode = vn\<rparr>\<rparr>))
       else Inr b2)"
    unfolding build_subgraph_def b2_def endNode_def b1_def b0_def first_def list.case_eq_if
    using False by (simp add: Let_def)
  show ?thesis
  proof (cases "linkMap (vistaSubset b2) (last (outLinkIDList b2)) = None")
    case isNone: True
    with assms res obtain vn where vn: "vistaNode b2 = Some vn"
      and b: "b = b2\<lparr>vistaSubset := addLink (vistaSubset b2)
                 \<lparr>link_id = last (outLinkIDList b2), origNode = vistaNodePrior b2, destNode = vn\<rparr>\<rparr>"
      by (auto split: option.splits)
    from d2 isNone show ?thesis unfolding b by (simp add: distinct_addLink)
  next
    case notNone: False
    with assms res have "b = b2" by simp
    with d2 show ?thesis by simp
  qed
qed

lemma ex_crossing_build:
  "build_subgraph ex_net None ex_crossing =
     Inr \<lparr>vistaSubset =
            \<lparr>latCtr = 0, lngCtr = 0,
             nodeList = [ex_gnode 1, ex_gnode 2, ex_gnode 3],
             linkList = [ex_link 1 1 2, ex_link 2 2 1, ex_link 3 2 3]\<rparr>,
          vistaNodePrior = ex_gnode 2,
          vistaNode = Some (ex_gnode 3),
          outLinkIDList = [1, 2, 1, 3], build_log = []\<rparr>"
  by code_simp

text \<open>
  The theorem on the self-crossing path over links 1, 2, 1, 3: the output sequence
  repeats link 1, the small network holds it once.
\<close>

theorem build_subgraph_distinct_links_witness:
  "build_subgraph ex_net None ex_crossing \<noteq> Inl NameError
     \<and> outLinkIDList (projr (build_subgraph ex_net None ex_crossing)) = [1, 2, 1, 3]
     \<and> map link_id (linkList (vistaSubset (projr (build_subgraph ex_net None ex_crossing)))) = [1, 2, 3]
     \<and> distinct (map link_id (linkList (vistaSubset (projr (build_subgraph ex_net None ex_crossing)))))"
  using build_subgraph_distinct_links [OF ex_crossing_build]
  by (simp add: ex_crossing_build ex_link_def)

subsection \<open>The per-link scan, loop by loop\<close>

text \<open>
  The scan reads \<^verbatim>\<open>resultTree[resultIndex]\<close> only while
  \<open>curResultIndex < len(resultTree)\<close>, and the cursor never runs ahead of the scan
  position, so every read is within the list.
\<close>

lemma scan_body_cursor_behind:
  "resultIndex s \<le> curResultIndex s
     \<Longrightarrow> resultIndex (scan_body rt l s) \<le> curResultIndex (scan_body rt l s)"
  by (simp add: scan_body_def Let_def)

lemma scan_link_cursor_behind:
  "resultIndex s \<le> curResultIndex s
     \<Longrightarrow> resultIndex (scan_link rt l s) \<le> curResultIndex (scan_link rt l s)"
proof (induction rt l s rule: scan_link.induct)
  case (1 rt l s)
  show ?case
  proof (cases "curResultIndex s < length rt")
    case False
    then show ?thesis using "1.prems" by (simp add: scan_link.simps [of rt l s])
  next
    case True
    note b = scan_body_cursor_behind [OF "1.prems", of rt l]
    show ?thesis
    proof (cases "scan_continue rt l (scan_body rt l s)")
      case c: True
      from "1.IH" [OF True c b] True c show ?thesis
        by (simp add: scan_link.simps [of rt l s])
    next
      case c: False
      with True b show ?thesis by (simp add: scan_link.simps [of rt l s])
    qed
  qed
qed

lemma scan_link_done: "length rt \<le> curResultIndex s \<Longrightarrow> scan_link rt l s = s"
  by (simp add: scan_link.simps [of rt l s])

lemma scan_body_nomatch:
  "entry_link (rt ! curResultIndex s) \<noteq> l
     \<Longrightarrow> scan_body rt l s = s\<lparr>curResultIndex := curResultIndex s + 1\<rparr>"
  by (simp add: scan_body_def entry_link_def)

lemma scan_body_match:
  "entry_link (rt ! curResultIndex s) = l
     \<Longrightarrow> scan_body rt l s =
         s\<lparr>foundStopSet := insert (entry_seq (rt ! curResultIndex s)) (foundStopSet s),
           bestTreeEntry := best_fold (bestTreeEntry s) [rt ! resultIndex s],
           matchCtr := matchCtr s + 1,
           resultIndex := curResultIndex s + 1,
           curResultIndex := curResultIndex s + 1\<rparr>"
  by (simp add: scan_body_def entry_link_def entry_seq_def Let_def split: option.splits)

lemma scan_link_skip:
  assumes "matchCtr s = 0" "curResultIndex s < length rt" "entry_link (rt ! curResultIndex s) \<noteq> l"
  shows "scan_link rt l s = scan_link rt l (s\<lparr>curResultIndex := curResultIndex s + 1\<rparr>)"
  using assms
  by (simp add: scan_link.simps [of rt l s] scan_body_nomatch scan_continue_def)

lemma scan_link_skip_all:
  "matchCtr s = 0 \<Longrightarrow>
   scan_link rt l s =
     scan_link rt l (s\<lparr>curResultIndex := curResultIndex s
        + length (takeWhile (\<lambda>e. entry_link e \<noteq> l) (drop (curResultIndex s) rt))\<rparr>)"
proof (induction "length rt - curResultIndex s" arbitrary: s)
  case 0
  then have "drop (curResultIndex s) rt = []" by simp
  then show ?case by simp
next
  case (Suc n)
  then have lt: "curResultIndex s < length rt" by simp
  then have dr: "drop (curResultIndex s) rt = rt ! curResultIndex s # drop (curResultIndex s + 1) rt"
    by (simp add: Cons_nth_drop_Suc)
  show ?case
  proof (cases "entry_link (rt ! curResultIndex s) = l")
    case True
    then show ?thesis by (simp add: dr)
  next
    case False
    let ?s = "s\<lparr>curResultIndex := curResultIndex s + 1\<rparr>"
    from Suc.hyps(2) have "n = length rt - curResultIndex ?s" by simp
    moreover from Suc.prems have "matchCtr ?s = 0" by simp
    ultimately have "scan_link rt l ?s =
       scan_link rt l (?s\<lparr>curResultIndex := curResultIndex ?s
          + length (takeWhile (\<lambda>e. entry_link e \<noteq> l) (drop (curResultIndex ?s) rt))\<rparr>)"
      by (rule Suc.hyps(1))
    with False Suc.prems lt show ?thesis
      by (simp add: scan_link_skip dr)
  qed
qed

text \<open>The loop once cursor and scan position agree and the entry there matches.\<close>

lemma scan_link_block:
  "resultIndex s = curResultIndex s \<Longrightarrow> curResultIndex s < length rt
   \<Longrightarrow> entry_link (rt ! curResultIndex s) = l \<Longrightarrow>
   scan_link rt l s =
     (let block = takeWhile (\<lambda>e. entry_link e = l) (drop (curResultIndex s) rt) in
      s\<lparr>foundStopSet := entry_seq ` set block \<union> foundStopSet s,
        bestTreeEntry := best_fold (bestTreeEntry s) block,
        matchCtr := matchCtr s + length block,
        resultIndex := curResultIndex s + length block,
        curResultIndex := curResultIndex s + length block\<rparr>)"
proof (induction "length rt - curResultIndex s" arbitrary: s)
  case 0
  then show ?case by simp
next
  case (Suc n)
  let ?c = "curResultIndex s"
  let ?s = "scan_body rt l s"
  have body: "?s = s\<lparr>foundStopSet := insert (entry_seq (rt ! ?c)) (foundStopSet s),
           bestTreeEntry := best_fold (bestTreeEntry s) [rt ! ?c],
           matchCtr := matchCtr s + 1,
           resultIndex := ?c + 1,
           curResultIndex := ?c + 1\<rparr>"
    using Suc.prems by (simp add: scan_body_match)
  have dr: "drop ?c rt = rt ! ?c # drop (?c + 1) rt"
    using Suc.prems by (simp add: Cons_nth_drop_Suc)
  show ?case
  proof (cases "?c + 1 < length rt \<and> entry_link (rt ! (?c + 1)) = l")
    case True
    then have cont: "scan_continue rt l ?s" by (simp add: body scan_continue_def entry_link_def)
    from Suc.hyps(2) have "n = length rt - curResultIndex ?s" by (simp add: body)
    moreover have "resultIndex ?s = curResultIndex ?s" by (simp add: body)
    moreover from True have "curResultIndex ?s < length rt" by (simp add: body)
    moreover from True have "entry_link (rt ! curResultIndex ?s) = l" by (simp add: body)
    ultimately have IH: "scan_link rt l ?s =
     (let block = takeWhile (\<lambda>e. entry_link e = l) (drop (curResultIndex ?s) rt) in
      ?s\<lparr>foundStopSet := entry_seq ` set block \<union> foundStopSet ?s,
        bestTreeEntry := best_fold (bestTreeEntry ?s) block,
        matchCtr := matchCtr ?s + length block,
        resultIndex := curResultIndex ?s + length block,
        curResultIndex := curResultIndex ?s + length block\<rparr>)"
      by (rule Suc.hyps(1))
    have "scan_link rt l s = scan_link rt l ?s"
      using Suc.prems cont by (simp add: scan_link.simps [of rt l s])
    also note IH
    finally show ?thesis
      using Suc.prems by (simp add: body dr Let_def split: option.splits)
  next
    case False
    then have cont: "\<not> scan_continue rt l ?s" by (auto simp: body scan_continue_def entry_link_def)
    have tw: "takeWhile (\<lambda>e. entry_link e = l) (drop (Suc ?c) rt) = []"
    proof (cases "?c + 1 < length rt")
      case True
      with False have "entry_link (rt ! (?c + 1)) \<noteq> l" by simp
      moreover from True have "drop (?c + 1) rt = rt ! (?c + 1) # drop (?c + 2) rt"
        by (simp add: Cons_nth_drop_Suc)
      ultimately show ?thesis by simp
    next
      case False
      then show ?thesis by simp
    qed
    have "scan_link rt l s = ?s"
      using Suc.prems cont by (simp add: scan_link.simps [of rt l s])
    then show ?thesis
      using Suc.prems by (simp add: body dr tw Let_def split: option.splits)
  qed
qed

lemma scan_link_first_match:
  assumes lt: "curResultIndex s < length rt" and m: "entry_link (rt ! curResultIndex s) = l"
  shows "scan_link rt l s =
     (let block = takeWhile (\<lambda>e. entry_link e = l) (drop (curResultIndex s) rt) in
      s\<lparr>foundStopSet := entry_seq ` set block \<union> foundStopSet s,
        bestTreeEntry := best_fold (best_fold (bestTreeEntry s) [rt ! resultIndex s]) (tl block),
        matchCtr := matchCtr s + length block,
        resultIndex := curResultIndex s + length block,
        curResultIndex := curResultIndex s + length block\<rparr>)"
proof -
  let ?c = "curResultIndex s"
  let ?s = "scan_body rt l s"
  have body: "?s = s\<lparr>foundStopSet := insert (entry_seq (rt ! ?c)) (foundStopSet s),
           bestTreeEntry := best_fold (bestTreeEntry s) [rt ! resultIndex s],
           matchCtr := matchCtr s + 1,
           resultIndex := ?c + 1,
           curResultIndex := ?c + 1\<rparr>"
    using m by (simp add: scan_body_match)
  have dr: "drop ?c rt = rt ! ?c # drop (Suc ?c) rt"
    using lt by (simp add: Cons_nth_drop_Suc)
  show ?thesis
  proof (cases "?c + 1 < length rt \<and> entry_link (rt ! (?c + 1)) = l")
    case True
    then have cont: "scan_continue rt l ?s" by (simp add: body scan_continue_def entry_link_def)
    have "scan_link rt l s = scan_link rt l ?s"
      using lt cont by (simp add: scan_link.simps [of rt l s])
    also have "\<dots> =
     (let block = takeWhile (\<lambda>e. entry_link e = l) (drop (curResultIndex ?s) rt) in
      ?s\<lparr>foundStopSet := entry_seq ` set block \<union> foundStopSet ?s,
        bestTreeEntry := best_fold (bestTreeEntry ?s) block,
        matchCtr := matchCtr ?s + length block,
        resultIndex := curResultIndex ?s + length block,
        curResultIndex := curResultIndex ?s + length block\<rparr>)"
      using True by (intro scan_link_block) (simp_all add: body)
    finally show ?thesis
      using m by (simp add: body dr Let_def)
  next
    case False
    then have cont: "\<not> scan_continue rt l ?s" by (auto simp: body scan_continue_def entry_link_def)
    have tw: "takeWhile (\<lambda>e. entry_link e = l) (drop (Suc ?c) rt) = []"
    proof (cases "?c + 1 < length rt")
      case True
      with False have "entry_link (rt ! (?c + 1)) \<noteq> l" by simp
      moreover from True have "drop (?c + 1) rt = rt ! (?c + 1) # drop (?c + 2) rt"
        by (simp add: Cons_nth_drop_Suc)
      ultimately show ?thesis by simp
    next
      case False
      then show ?thesis by simp
    qed
    have "scan_link rt l s = ?s"
      using lt cont by (simp add: scan_link.simps [of rt l s])
    then show ?thesis
      using m by (simp add: body dr tw Let_def)
  qed
qed

lemma skipped_then_match:
  assumes "r + length (skipped_entries rt l r) < length rt"
  shows "entry_link (rt ! (r + length (skipped_entries rt l r))) = l"
proof -
  let ?k = "length (skipped_entries rt l r)"
  from assms have "?k < length (drop r rt)" by simp
  then have "\<not> (\<lambda>e. entry_link e \<noteq> l) (drop r rt ! ?k)"
    unfolding skipped_entries_def by (rule nth_length_takeWhile)
  with assms show ?thesis by (simp add: add.commute)
qed

lemma matched_block_empty_iff:
  "matched_block rt l r = [] \<longleftrightarrow> length rt \<le> r + length (skipped_entries rt l r)"
proof (cases "r + length (skipped_entries rt l r) < length rt")
  case True
  let ?c = "r + length (skipped_entries rt l r)"
  from True have "drop ?c rt = rt ! ?c # drop (Suc ?c) rt" by (simp add: Cons_nth_drop_Suc)
  with skipped_then_match [OF True] True show ?thesis by (simp add: matched_block_def)
next
  case False
  then show ?thesis by (simp add: matched_block_def)
qed

lemma scan_link_no_match:
  assumes "matched_block rt l r = []"
  shows "scan_link rt l (scan_start r F) =
           (scan_start r F)\<lparr>curResultIndex := r + length (skipped_entries rt l r)\<rparr>"
proof -
  let ?k = "length (skipped_entries rt l r)"
  have "scan_link rt l (scan_start r F) = scan_link rt l ((scan_start r F)\<lparr>curResultIndex := r + ?k\<rparr>)"
    using scan_link_skip_all [of "scan_start r F" rt l]
    by (simp add: scan_start_def skipped_entries_def)
  also have "\<dots> = (scan_start r F)\<lparr>curResultIndex := r + ?k\<rparr>"
    using assms by (intro scan_link_done) (simp add: matched_block_empty_iff)
  finally show ?thesis .
qed

lemma scan_link_match:
  assumes "matched_block rt l r \<noteq> []"
  shows "scan_link rt l (scan_start r F) =
           \<lparr>resultIndex = r + length (skipped_entries rt l r) + length (matched_block rt l r),
            curResultIndex = r + length (skipped_entries rt l r) + length (matched_block rt l r),
            bestTreeEntry = best_fold (Some (rt ! r)) (tl (matched_block rt l r)),
            matchCtr = length (matched_block rt l r),
            foundStopSet = entry_seq ` set (matched_block rt l r) \<union> F\<rparr>"
proof -
  let ?k = "length (skipped_entries rt l r)"
  let ?s = "(scan_start r F)\<lparr>curResultIndex := r + ?k\<rparr>"
  from assms have lt: "r + ?k < length rt" by (simp add: matched_block_empty_iff)
  have "scan_link rt l (scan_start r F) = scan_link rt l ?s"
    using scan_link_skip_all [of "scan_start r F" rt l]
    by (simp add: scan_start_def skipped_entries_def)
  also have "\<dots> =
     (let block = takeWhile (\<lambda>e. entry_link e = l) (drop (curResultIndex ?s) rt) in
      ?s\<lparr>foundStopSet := entry_seq ` set block \<union> foundStopSet ?s,
        bestTreeEntry := best_fold (best_fold (bestTreeEntry ?s) [rt ! resultIndex ?s]) (tl block),
        matchCtr := matchCtr ?s + length block,
        resultIndex := curResultIndex ?s + length block,
        curResultIndex := curResultIndex ?s + length block\<rparr>)"
    using lt skipped_then_match [OF lt] by (intro scan_link_first_match) simp_all
  finally show ?thesis
    by (simp add: Let_def matched_block_def scan_start_def)
qed

subsection \<open>Claim C6: what one scan consumes\<close>

lemma skipped_block_positions:
  "take (length (skipped_entries rt l r) + length (matched_block rt l r)) (drop r rt)
     = skipped_entries rt l r @ matched_block rt l r"
proof -
  let ?xs = "drop r rt"
  let ?k = "length (skipped_entries rt l r)"
  have "take (?k + length (matched_block rt l r)) ?xs
          = take ?k ?xs @ take (length (matched_block rt l r)) (drop ?k ?xs)"
    by (rule take_add)
  moreover have "take ?k ?xs = skipped_entries rt l r"
    by (simp add: skipped_entries_def takeWhile_eq_take [symmetric])
  moreover have "take (length (matched_block rt l r)) (drop ?k ?xs) = matched_block rt l r"
    by (simp add: matched_block_def takeWhile_eq_take [symmetric] add.commute)
  ultimately show ?thesis by simp
qed

lemma after_block_differs:
  assumes "r + length (skipped_entries rt l r) + length (matched_block rt l r) < length rt"
  shows "entry_link (rt ! (r + length (skipped_entries rt l r) + length (matched_block rt l r))) \<noteq> l"
proof -
  let ?c = "r + length (skipped_entries rt l r)"
  let ?m = "length (matched_block rt l r)"
  from assms have "?m < length (drop ?c rt)" by simp
  then have "\<not> (\<lambda>e. entry_link e = l) (drop ?c rt ! ?m)"
    unfolding matched_block_def by (rule nth_length_takeWhile)
  with assms show ?thesis by (simp add: add.commute add.left_commute)
qed

text \<open>
  Claim C6, as the code has it. Starting at the cursor \<open>r\<close>, the scan first passes over
  the entries whose matched link differs from \<open>linkID\<close> (\<open>skipped_entries\<close>; line 351
  keeps the loop going while \<^verbatim>\<open>matchCtr == 0\<close>). If no entry at or after the cursor
  matches, nothing is consumed and the cursor stays. Otherwise the scan consumes exactly
  the contiguous block of matching entries that begins at the first match
  (\<open>matched_block\<close>): the cursor ends just past the block, the match counter is the
  length of the block, the sequence numbers of the block are added to the found-set, and
  the entry after the block, if there is one, does not match and is not consumed.
\<close>

theorem scan_link_consumes_first_matching_block:
  assumes sc: "scan_link resultTree linkID (scan_start r found) = sc"
  shows "(\<forall>e \<in> set (skipped_entries resultTree linkID r). entry_link e \<noteq> linkID)
     \<and> (\<forall>e \<in> set (matched_block resultTree linkID r). entry_link e = linkID)
     \<and> take (length (skipped_entries resultTree linkID r)
               + length (matched_block resultTree linkID r)) (drop r resultTree)
          = skipped_entries resultTree linkID r @ matched_block resultTree linkID r
     \<and> (matched_block resultTree linkID r = [] \<longrightarrow>
           resultIndex sc = r \<and> matchCtr sc = 0 \<and> foundStopSet sc = found
           \<and> bestTreeEntry sc = None)
     \<and> (matched_block resultTree linkID r \<noteq> [] \<longrightarrow>
           resultIndex sc = r + length (skipped_entries resultTree linkID r)
                              + length (matched_block resultTree linkID r)
           \<and> curResultIndex sc = resultIndex sc
           \<and> matchCtr sc = length (matched_block resultTree linkID r)
           \<and> foundStopSet sc = found \<union> entry_seq ` set (matched_block resultTree linkID r)
           \<and> (resultIndex sc < length resultTree \<longrightarrow>
                 entry_link (resultTree ! resultIndex sc) \<noteq> linkID))"
proof -
  have a: "\<forall>e \<in> set (skipped_entries resultTree linkID r). entry_link e \<noteq> linkID"
    unfolding skipped_entries_def by (auto dest: set_takeWhileD)
  have b: "\<forall>e \<in> set (matched_block resultTree linkID r). entry_link e = linkID"
    unfolding matched_block_def by (auto dest: set_takeWhileD)
  have c: "matched_block resultTree linkID r = [] \<longrightarrow>
           resultIndex sc = r \<and> matchCtr sc = 0 \<and> foundStopSet sc = found
           \<and> bestTreeEntry sc = None"
  proof
    assume "matched_block resultTree linkID r = []"
    from scan_link_no_match [OF this, of found] sc
    have "sc = (scan_start r found)\<lparr>curResultIndex := r + length (skipped_entries resultTree linkID r)\<rparr>"
      by simp
    then show "resultIndex sc = r \<and> matchCtr sc = 0 \<and> foundStopSet sc = found \<and> bestTreeEntry sc = None"
      by (simp add: scan_start_def)
  qed
  have d: "matched_block resultTree linkID r \<noteq> [] \<longrightarrow>
           resultIndex sc = r + length (skipped_entries resultTree linkID r)
                              + length (matched_block resultTree linkID r)
           \<and> curResultIndex sc = resultIndex sc
           \<and> matchCtr sc = length (matched_block resultTree linkID r)
           \<and> foundStopSet sc = found \<union> entry_seq ` set (matched_block resultTree linkID r)
           \<and> (resultIndex sc < length resultTree \<longrightarrow>
                 entry_link (resultTree ! resultIndex sc) \<noteq> linkID)"
  proof
    assume "matched_block resultTree linkID r \<noteq> []"
    from scan_link_match [OF this, of found] sc
    have eq: "sc = \<lparr>resultIndex = r + length (skipped_entries resultTree linkID r)
                                    + length (matched_block resultTree linkID r),
            curResultIndex = r + length (skipped_entries resultTree linkID r)
                               + length (matched_block resultTree linkID r),
            bestTreeEntry = best_fold (Some (resultTree ! r)) (tl (matched_block resultTree linkID r)),
            matchCtr = length (matched_block resultTree linkID r),
            foundStopSet = entry_seq ` set (matched_block resultTree linkID r) \<union> found\<rparr>"
      by simp
    show "resultIndex sc = r + length (skipped_entries resultTree linkID r)
                              + length (matched_block resultTree linkID r)
           \<and> curResultIndex sc = resultIndex sc
           \<and> matchCtr sc = length (matched_block resultTree linkID r)
           \<and> foundStopSet sc = found \<union> entry_seq ` set (matched_block resultTree linkID r)
           \<and> (resultIndex sc < length resultTree \<longrightarrow>
                 entry_link (resultTree ! resultIndex sc) \<noteq> linkID)"
      unfolding eq using after_block_differs [of r resultTree linkID] by auto
  qed
  from a b c d skipped_block_positions [of resultTree linkID r] show ?thesis by blast
qed

lemma ex_results_scan:
  "scan_link ex_results 1 (scan_start 0 {}) =
     \<lparr>resultIndex = 3, curResultIndex = 3, bestTreeEntry = Some (ex_entry 3 1 3),
      matchCtr = 2, foundStopSet = {2, 3}\<rparr>"
  by code_simp

text \<open>
  Claim C6 as stated fails where the entry at the cursor is matched to another link: for
  link 1 and cursor 0 the entry at index 0 is on link 2, so the block of entries on link 1
  that begins at the cursor is empty, and yet the scan goes past it and consumes the
  entries at indices 1 and 2.
\<close>

theorem scan_link_counterexample:
  "entry_link (ex_results ! 0) \<noteq> 1
     \<and> takeWhile (\<lambda>e. entry_link e = 1) (drop 0 ex_results) = []
     \<and> matchCtr (scan_link ex_results 1 (scan_start 0 {})) = 2
     \<and> resultIndex (scan_link ex_results 1 (scan_start 0 {})) = 3"
  by (simp add: ex_results_scan) (simp add: ex_results_def ex_entry_def ex_node_def ex_link_def entry_link_def)

text \<open>
  The theorem on the same entries: for link 1 one entry is passed over and a block of two
  is consumed, up to the entry on link 3; for link 7, which no entry is on, nothing is.
\<close>

theorem scan_link_consumes_first_matching_block_witness:
  "skipped_entries ex_results 1 0 = [ex_entry 1 2 5]
     \<and> matched_block ex_results 1 0 = [ex_entry 2 1 1, ex_entry 3 1 3]
     \<and> resultIndex (scan_link ex_results 1 (scan_start 0 {})) = 3
     \<and> matchCtr (scan_link ex_results 1 (scan_start 0 {})) = 2
     \<and> foundStopSet (scan_link ex_results 1 (scan_start 0 {})) = {2, 3}
     \<and> entry_link (ex_results ! 3) \<noteq> 1
     \<and> matched_block ex_results 7 0 = []
     \<and> resultIndex (scan_link ex_results 7 (scan_start 0 {})) = 0"
proof -
  have sk: "skipped_entries ex_results 1 0 = [ex_entry 1 2 5]"
    and bl: "matched_block ex_results 1 0 = [ex_entry 2 1 1, ex_entry 3 1 3]"
    and no: "matched_block ex_results 7 0 = []"
    by (simp_all add: skipped_entries_def matched_block_def ex_results_def ex_entry_def
        ex_node_def ex_link_def entry_link_def)
  from scan_link_consumes_first_matching_block [OF refl, of ex_results 1 0 "{}"] bl sk
  have "resultIndex (scan_link ex_results 1 (scan_start 0 {})) = 3
     \<and> matchCtr (scan_link ex_results 1 (scan_start 0 {})) = 2
     \<and> foundStopSet (scan_link ex_results 1 (scan_start 0 {})) = {2, 3}
     \<and> entry_link (ex_results ! 3) \<noteq> 1"
    by (auto simp: entry_seq_def ex_entry_def ex_node_def ex_results_def)
  moreover from scan_link_consumes_first_matching_block [OF refl, of ex_results 7 0 "{}"] no
  have "resultIndex (scan_link ex_results 7 (scan_start 0 {})) = 0" by simp
  ultimately show ?thesis using sk bl no by simp
qed

subsection \<open>Claim C2: which of several stops on a link is kept\<close>

text \<open>
  Where the block of matching entries starts at the cursor, the entry kept is the one
  that \<open>best_fold\<close> selects from the block: one of smallest reference distance, the
  earlier one on a tie.
\<close>

lemma best_fold_Some_head:
  "best_fold None (e # es) = best_fold (Some e) es"
  by simp

lemma scan_link_best_at_cursor:
  assumes "skipped_entries rt l r = []" and "matched_block rt l r \<noteq> []"
  shows "bestTreeEntry (scan_link rt l (scan_start r F)) = best_fold None (matched_block rt l r)"
proof -
  from assms(2) have lt: "r + length (skipped_entries rt l r) < length rt"
    by (simp add: matched_block_empty_iff)
  with assms(1) have r: "r < length rt" by simp
  then have "drop r rt = rt ! r # drop (Suc r) rt" by (simp add: Cons_nth_drop_Suc)
  moreover from skipped_then_match [OF lt] assms(1) have "entry_link (rt ! r) = l" by simp
  ultimately have "matched_block rt l r
      = rt ! r # takeWhile (\<lambda>e. entry_link e = l) (drop (Suc r) rt)"
    using assms(1) by (simp add: matched_block_def)
  then have "best_fold None (matched_block rt l r)
      = best_fold (Some (rt ! r)) (tl (matched_block rt l r))"
    by simp
  with scan_link_match [OF assms(2), of F] show ?thesis by simp
qed

lemma best_fold_minimal:
  "best_fold (Some b) es = Some m \<Longrightarrow>
     (m = b \<or> m \<in> set es) \<and> refDist (pointOnLink m) \<le> refDist (pointOnLink b)
     \<and> (\<forall>e \<in> set es. refDist (pointOnLink m) \<le> refDist (pointOnLink e))"
proof (induction es arbitrary: b)
  case Nil
  then show ?case by simp
next
  case (Cons e es)
  show ?case
  proof (cases "refDist (pointOnLink e) < refDist (pointOnLink b)")
    case True
    with Cons.prems have "best_fold (Some e) es = Some m" by simp
    from Cons.IH [OF this] True show ?thesis by auto
  next
    case False
    with Cons.prems have "best_fold (Some b) es = Some m" by simp
    from Cons.IH [OF this] False show ?thesis by auto
  qed
qed

lemma ex_dup_results:
  "ex_results ! 1 = ex_entry 2 1 1" "ex_results ! 2 = ex_entry 3 1 3"
  "matched_block ex_results 1 0 = [ex_entry 2 1 1, ex_entry 3 1 3]"
  "best_fold None (matched_block ex_results 1 0) = Some (ex_entry 2 1 1)"
  by (simp_all add: matched_block_def skipped_entries_def ex_results_def ex_entry_def
      ex_node_def ex_link_def entry_link_def)

lemma ex_dup_trip:
  "ex_summary (process_trip False ex_constructPath ex_gtfsNodes ex_gtfsStopTimes_dup ex_net 7
                 (ex_trip 7 1) initial_state) =
     Some ([\<lparr>row_route = 7, row_sequence = 0, row_link = 1, row_stop = Some 103, row_dwelltime = Some 0\<rparr>,
            \<lparr>row_route = 7, row_sequence = 1, row_link = 2, row_stop = None, row_dwelltime = None\<rparr>,
            \<lparr>row_route = 7, row_sequence = 2, row_link = 1, row_stop = None, row_dwelltime = None\<rparr>,
            \<lparr>row_route = 7, row_sequence = 3, row_link = 3, row_stop = None, row_dwelltime = None\<rparr>],
           [InfoRoute 7, InfoMapping, WarnDuplicate 2 7 1 103 3, WarnUnmatched 7 101 1],
           [None, None, Some 1, None])"
  by code_simp

text \<open>
  Claim C2 does not hold where an entry on another link stands at the cursor. Line 346
  compares and keeps \<^verbatim>\<open>resultTree[resultIndex]\<close>, the entry at the cursor, where the
  entry under inspection is \<^verbatim>\<open>resultTree[curResultIndex]\<close>. On the entries
  \<open>ex_results\<close> the candidates for link 1 are the stops of sequence numbers 2 and 3, at
  reference distances 1 and 3; the scan keeps sequence number 3. End to end, on trip 7
  with stop 101 on link 2 followed by stops 102 and 103 on link 1: the row of link 1
  carries stop 103, the duplicate warning names stop 103, and the nearer stop 102 is
  dropped.
\<close>

theorem duplicate_choice_misses_nearest:
  "matched_block ex_results 1 0 = [ex_entry 2 1 1, ex_entry 3 1 3]
   \<and> best_fold None (matched_block ex_results 1 0) = Some (ex_entry 2 1 1)
   \<and> bestTreeEntry (scan_link ex_results 1 (scan_start 0 {})) = Some (ex_entry 3 1 3)
   \<and> refDist (pointOnLink (ex_entry 2 1 1)) < refDist (pointOnLink (ex_entry 3 1 3))
   \<and> ex_summary (process_trip False ex_constructPath ex_gtfsNodes ex_gtfsStopTimes_dup ex_net 7
                   (ex_trip 7 1) initial_state) =
       Some ([\<lparr>row_route = 7, row_sequence = 0, row_link = 1, row_stop = Some 103, row_dwelltime = Some 0\<rparr>,
              \<lparr>row_route = 7, row_sequence = 1, row_link = 2, row_stop = None, row_dwelltime = None\<rparr>,
              \<lparr>row_route = 7, row_sequence = 2, row_link = 1, row_stop = None, row_dwelltime = None\<rparr>,
              \<lparr>row_route = 7, row_sequence = 3, row_link = 3, row_stop = None, row_dwelltime = None\<rparr>],
             [InfoRoute 7, InfoMapping, WarnDuplicate 2 7 1 103 3, WarnUnmatched 7 101 1],
             [None, None, Some 1, None])"
  using ex_dup_results(3,4) ex_dup_trip
  by (simp add: ex_results_scan) (simp add: ex_entry_def ex_node_def)

subsection \<open>The walk over the output links, the leftover stops, and one trip\<close>

lemma link_kept_refl: "link_kept m m"
  by (simp add: link_kept_def)

lemma link_kept_trans: "link_kept a b \<Longrightarrow> link_kept b c \<Longrightarrow> link_kept a c"
  unfolding link_kept_def by (metis)

lemma assign_stop_link_kept:
  "assign_stop ret_map msgs sid p = (ret_map', msgs') \<Longrightarrow> link_kept ret_map ret_map'"
  by (auto simp: assign_stop_def link_kept_def split: option.splits if_splits)

lemma link_step_inv:
  assumes "link_step tripID lookup rt l w = Inr w'"
  shows "link_kept (w_ret w) (w_ret w')"
    and "\<exists>row. w_rows w' = w_rows w @ [row] \<and> row_route row = tripID
           \<and> row_sequence row = w_outSeqCtr w \<and> row_link row = l"
    and "w_outSeqCtr w' = w_outSeqCtr w + 1"
  using assms
  by (auto simp: link_step_def Let_def link_kept_refl
      split: if_splits option.splits prod.splits dest: assign_stop_link_kept)

lemma walk_links_inv:
  "walk_links tripID lookup rt ls w = Inr w' \<Longrightarrow>
     link_kept (w_ret w) (w_ret w')
     \<and> w_outSeqCtr w' = w_outSeqCtr w + int (length ls)
     \<and> (\<exists>rows. w_rows w' = w_rows w @ rows
           \<and> map row_link rows = ls
           \<and> map row_sequence rows = map (\<lambda>i. w_outSeqCtr w + int i) [0..<length ls]
           \<and> map row_route rows = replicate (length ls) tripID)"
proof (induction ls arbitrary: w)
  case Nil
  then show ?case by (simp add: link_kept_refl)
next
  case (Cons l ls)
  from Cons.prems obtain w1 where s1: "link_step tripID lookup rt l w = Inr w1"
    and r1: "walk_links tripID lookup rt ls w1 = Inr w'"
    by (auto split: sum.splits)
  from link_step_inv [OF s1] obtain row where k1: "link_kept (w_ret w) (w_ret w1)"
    and row: "w_rows w1 = w_rows w @ [row]" "row_route row = tripID"
      "row_sequence row = w_outSeqCtr w" "row_link row = l"
    and c1: "w_outSeqCtr w1 = w_outSeqCtr w + 1"
    by blast
  from Cons.IH [OF r1] obtain rows where k2: "link_kept (w_ret w1) (w_ret w')"
    and c2: "w_outSeqCtr w' = w_outSeqCtr w1 + int (length ls)"
    and rows: "w_rows w' = w_rows w1 @ rows" "map row_link rows = ls"
      "map row_sequence rows = map (\<lambda>i. w_outSeqCtr w1 + int i) [0..<length ls]"
      "map row_route rows = replicate (length ls) tripID"
    by blast
  have seqs: "map (\<lambda>i. w_outSeqCtr w + int i) [0..<length (l # ls)]
                = w_outSeqCtr w # map (\<lambda>i. w_outSeqCtr w1 + int i) [0..<length ls]"
    by (simp add: upt_conv_Cons map_Suc_upt [symmetric] c1 del: upt_Suc) 
  have "w_rows w' = w_rows w @ (row # rows)" using row rows by simp
  moreover have "map row_link (row # rows) = l # ls" using row rows by simp
  moreover have "map row_sequence (row # rows)
                   = map (\<lambda>i. w_outSeqCtr w + int i) [0..<length (l # ls)]"
    using row rows seqs by simp
  moreover have "map row_route (row # rows) = replicate (length (l # ls)) tripID"
    using row rows by simp
  ultimately show ?case
    using link_kept_trans [OF k1 k2] c1 c2 by (intro conjI exI [of _ "row # rows"]) simp_all
qed

lemma report_unmatched_messages:
  "report_unmatched pr tripID sid found sts (msgs, prn) = Inr (msgs', prn') \<Longrightarrow>
     msgs' = msgs @ map (\<lambda>st. WarnUnmatched tripID (stopID (stop st)) (stopSeq st))
                      (filter (\<lambda>st. stopSeq st \<notin> found) sts)"
proof (induction sts arbitrary: msgs prn)
  case Nil
  then show ?case by simp
next
  case (Cons st sts)
  show ?case
  proof (cases "stopSeq st \<in> found")
    case True
    with Cons.prems have "report_unmatched pr tripID sid found sts (msgs, prn) = Inr (msgs', prn')"
      by simp
    from Cons.IH [OF this] True show ?thesis by simp
  next
    case False
    let ?m = "msgs @ [WarnUnmatched tripID (stopID (stop st)) (stopSeq st)]"
    from Cons.prems False obtain prn1 where
      "report_unmatched pr tripID sid found sts (?m, prn1) = Inr (msgs', prn')"
      by (auto simp: Let_def split: if_splits option.splits)
    from Cons.IH [OF this] False show ?thesis by simp
  qed
qed

lemma assign_tripE:
  assumes "assign_trip pr cp net tripID sid ls nodes stopTimes b st = Inr st'"
  obtains rt0 rt prn1 w msgs prn2 where
    "cp (stop_shapes nodes stopTimes) (vistaSubset b) = Inr rt0"
    "strip_dummy_ends rt0 = Inr rt"
    "walk_links tripID (gtfsStopsLookup stopTimes) rt (outLinkIDList b)
        \<lparr>w_resultIndex = 0, w_foundStopSet = {}, w_outSeqCtr = ls,
         w_ret = ret st, w_rows = outFile st, w_log = stderr_log st\<rparr> = Inr w"
    "report_unmatched pr tripID sid (w_foundStopSet w) stopTimes (w_log w, prn1) = Inr (msgs, prn2)"
    "st' = st\<lparr>ret := w_ret w, problemReportNodes := prn2, outFile := w_rows w,
              stderr_log := msgs\<rparr>"
  using assms unfolding assign_trip_def
  by (auto split: sum.splits prod.splits)

lemma process_tripE:
  assumes run: "process_trip pr cp gtfsNodes gtfsStopTimes net tripID trip st = Inr st'"
    and se: "shapeEntries trip = se # ses" and tn: "gtfsNodes (shapeID se) = Some treeNodes"
    and pos: "0 \<le> longestStart (longest_interval treeNodes)"
  obtains stopTimes b st2 where
    "gtfsStopTimes trip = Some stopTimes"
    "build_subgraph net (vistaNode_var st)
        (take (longestEnd (longest_interval treeNodes) - nat (longestStart (longest_interval treeNodes)))
           (drop (nat (longestStart (longest_interval treeNodes))) treeNodes)) = Inr b"
    "ret st2 = ret st" "outFile st2 = outFile st" "problemReportNodes st2 = problemReportNodes st"
    "assign_trip pr cp net tripID (shapeID se) (longestStart (longest_interval treeNodes))
        (take (longestEnd (longest_interval treeNodes) - nat (longestStart (longest_interval treeNodes)))
           (drop (nat (longestStart (longest_interval treeNodes))) treeNodes))
        stopTimes b st2 = Inr st'"
proof -
  define seg where "seg = longest_interval treeNodes"
  define nodes where "nodes = take (longestEnd seg - nat (longestStart seg))
           (drop (nat (longestStart seg)) treeNodes)"
  define st1 where "st1 = st\<lparr>stderr_log := stderr_log st @ [InfoRoute tripID]\<rparr>"
  define st2 where "st2 =
     (if longestStart seg > 0 \<or> longestEnd seg < length treeNodes
      then st1\<lparr>stderr_log := stderr_log st1 @
             [WarnTrimmed
                (shapeID (shapeEntry (treeNodes ! nat (longestStart seg))))
                (shapeSeq (shapeEntry (treeNodes ! nat (longestStart seg))))
                (shapeSeq (shapeEntry (treeNodes ! (longestEnd seg - 1))))
                (longestLinkCount seg) (totalLinks seg)]\<rparr>
      else st1)"
  have eq: "process_trip pr cp gtfsNodes gtfsStopTimes net tripID trip st =
     (case gtfsStopTimes trip of
        None \<Rightarrow> Inl KeyError
      | Some stopTimes \<Rightarrow>
          (case build_subgraph net (vistaNode_var st2) nodes of
             Inl e \<Rightarrow> Inl e
           | Inr b \<Rightarrow>
               assign_trip pr cp net tripID (shapeID se) (longestStart seg) nodes stopTimes b
                 (st2\<lparr>stderr_log := stderr_log st2 @ build_log b @ [InfoMapping],
                     vistaNode_var := vistaNode b\<rparr>)))"
    unfolding process_trip_def se list.case tn option.case Let_def
      seg_def nodes_def st1_def st2_def
    using pos by (simp only: if_True)
  have keep: "vistaNode_var st2 = vistaNode_var st" "ret st2 = ret st" "outFile st2 = outFile st"
    "problemReportNodes st2 = problemReportNodes st"
    by (simp_all add: st2_def st1_def)
  from run eq obtain stopTimes b where a: "gtfsStopTimes trip = Some stopTimes"
    and b: "build_subgraph net (vistaNode_var st2) nodes = Inr b"
    and c: "assign_trip pr cp net tripID (shapeID se) (longestStart seg) nodes stopTimes b
                 (st2\<lparr>stderr_log := stderr_log st2 @ build_log b @ [InfoMapping],
                     vistaNode_var := vistaNode b\<rparr>) = Inr st'"
    by (auto split: option.splits sum.splits)
  from b keep have b': "build_subgraph net (vistaNode_var st)
        (take (longestEnd (longest_interval treeNodes) - nat (longestStart (longest_interval treeNodes)))
           (drop (nat (longestStart (longest_interval treeNodes))) treeNodes)) = Inr b"
    by (simp add: seg_def nodes_def)
  let ?st3 = "st2\<lparr>stderr_log := stderr_log st2 @ build_log b @ [InfoMapping],
                     vistaNode_var := vistaNode b\<rparr>"
  from keep have k3: "ret ?st3 = ret st" "outFile ?st3 = outFile st"
    "problemReportNodes ?st3 = problemReportNodes st"
    by simp_all
  show thesis
    by (rule that [OF a b' k3 c [unfolded seg_def nodes_def]])
qed

lemma process_trip_rows:
  assumes run: "process_trip pr cp gtfsNodes gtfsStopTimes net tripID trip st = Inr st'"
    and se: "shapeEntries trip = se # ses" and tn: "gtfsNodes (shapeID se) = Some treeNodes"
    and pos: "0 \<le> longestStart (longest_interval treeNodes)"
  shows "\<exists>b rows.
      build_subgraph net (vistaNode_var st)
        (take (longestEnd (longest_interval treeNodes) - nat (longestStart (longest_interval treeNodes)))
           (drop (nat (longestStart (longest_interval treeNodes))) treeNodes)) = Inr b
      \<and> outFile st' = outFile st @ rows
      \<and> map row_link rows = outLinkIDList b
      \<and> map row_sequence rows =
            map (\<lambda>i. longestStart (longest_interval treeNodes) + int i) [0..<length (outLinkIDList b)]
      \<and> map row_route rows = replicate (length (outLinkIDList b)) tripID"
proof -
  let ?nodes = "take (longestEnd (longest_interval treeNodes) - nat (longestStart (longest_interval treeNodes)))
           (drop (nat (longestStart (longest_interval treeNodes))) treeNodes)"
  let ?ls = "longestStart (longest_interval treeNodes)"
  obtain stopTimes b st2 where
    b: "build_subgraph net (vistaNode_var st) ?nodes = Inr b"
    and st2: "outFile st2 = outFile st"
    and at: "assign_trip pr cp net tripID (shapeID se) ?ls ?nodes stopTimes b st2 = Inr st'"
    by (rule process_tripE [OF run se tn pos])
  obtain rt0 rt prn1 w msgs prn2 where
    w: "walk_links tripID (gtfsStopsLookup stopTimes) rt (outLinkIDList b)
        \<lparr>w_resultIndex = 0, w_foundStopSet = {}, w_outSeqCtr = ?ls,
         w_ret = ret st2, w_rows = outFile st2, w_log = stderr_log st2\<rparr> = Inr w"
    and st': "st' = st2\<lparr>ret := w_ret w, problemReportNodes := prn2, outFile := w_rows w,
              stderr_log := msgs\<rparr>"
    by (rule assign_tripE [OF at])
  from walk_links_inv [OF w] have "\<exists>rows. w_rows w = outFile st2 @ rows
           \<and> map row_link rows = outLinkIDList b
           \<and> map row_sequence rows = map (\<lambda>i. ?ls + int i) [0..<length (outLinkIDList b)]
           \<and> map row_route rows = replicate (length (outLinkIDList b)) tripID"
    by simp
  then obtain rows where rows: "w_rows w = outFile st2 @ rows"
    "map row_link rows = outLinkIDList b"
    "map row_sequence rows = map (\<lambda>i. ?ls + int i) [0..<length (outLinkIDList b)]"
    "map row_route rows = replicate (length (outLinkIDList b)) tripID"
    by blast
  have "outFile st' = outFile st @ rows" by (simp add: st' rows(1) st2)
  with b rows(2-4) show ?thesis by blast
qed

lemma process_trip_link_kept:
  assumes run: "process_trip pr cp gtfsNodes gtfsStopTimes net tripID trip st = Inr st'"
  shows "link_kept (ret st) (ret st')"
proof (cases "shapeEntries trip")
  case Nil
  with run show ?thesis by (simp add: process_trip_def)
next
  case (Cons se ses)
  show ?thesis
  proof (cases "gtfsNodes (shapeID se)")
    case None
    with run Cons have "st' = st" by (simp add: process_trip_def)
    then show ?thesis by (simp add: link_kept_refl)
  next
    case (Some treeNodes)
    show ?thesis
    proof (cases "0 \<le> longestStart (longest_interval treeNodes)")
      case False
      with run Cons Some have "ret st' = ret st"
        by (auto simp: process_trip_def Let_def)
      then show ?thesis by (simp add: link_kept_refl)
    next
      case True
      obtain stopTimes b st2 where r2: "ret st2 = ret st"
        and at: "assign_trip pr cp net tripID (shapeID se) (longestStart (longest_interval treeNodes))
          (take (longestEnd (longest_interval treeNodes) - nat (longestStart (longest_interval treeNodes)))
             (drop (nat (longestStart (longest_interval treeNodes))) treeNodes))
          stopTimes b st2 = Inr st'"
        by (rule process_tripE [OF run Cons Some True])
      obtain rt0 rt prn1 w msgs prn2 where
        w: "walk_links tripID (gtfsStopsLookup stopTimes) rt (outLinkIDList b)
            \<lparr>w_resultIndex = 0, w_foundStopSet = {},
             w_outSeqCtr = longestStart (longest_interval treeNodes),
             w_ret = ret st2, w_rows = outFile st2, w_log = stderr_log st2\<rparr> = Inr w"
        and st': "st' = st2\<lparr>ret := w_ret w, problemReportNodes := prn2, outFile := w_rows w,
                  stderr_log := msgs\<rparr>"
        by (rule assign_tripE [OF at])
      from walk_links_inv [OF w] have "link_kept (ret st2) (w_ret w)" by simp
      then show ?thesis by (simp add: st' r2)
    qed
  qed
qed

lemma run_trips_link_kept:
  "run_trips pr cp gtfsTrips gtfsNodes gtfsStopTimes net ids st = Inr st'
     \<Longrightarrow> link_kept (ret st) (ret st')"
proof (induction ids arbitrary: st)
  case Nil
  then show ?case by (simp add: link_kept_refl)
next
  case (Cons tripID ids)
  from Cons.prems obtain trip st1 where
    p: "process_trip pr cp gtfsNodes gtfsStopTimes net tripID trip st = Inr st1"
    and r: "run_trips pr cp gtfsTrips gtfsNodes gtfsStopTimes net ids st1 = Inr st'"
    by (auto split: option.splits sum.splits)
  from process_trip_link_kept [OF p] Cons.IH [OF r] show ?case by (rule link_kept_trans)
qed

lemma run_trips_append:
  "run_trips pr cp gtfsTrips gtfsNodes gtfsStopTimes net (ids1 @ ids2) st =
     (case run_trips pr cp gtfsTrips gtfsNodes gtfsStopTimes net ids1 st of
        Inl e \<Rightarrow> Inl e
      | Inr mid \<Rightarrow> run_trips pr cp gtfsTrips gtfsNodes gtfsStopTimes net ids2 mid)"
  by (induction ids1 arbitrary: st) (auto split: option.splits sum.splits)


lemma ex_summary_Some:
  assumes "ex_summary r = Some (rows, msgs, links)"
  shows "r = Inr (projr r)" and "outFile (projr r) = rows" and "stderr_log (projr r) = msgs"
    and "map (stop_link (projr r)) [101, 102, 103, 500] = links"
  using assms by (cases r; simp add: ex_summary_def)+

subsection \<open>Claim C8: rows in traversal order, numbered from the start of the run\<close>

text \<open>
  Claim C8. When a trip is processed (its shape has tree nodes and an interval is
  selected) and the call returns, the rows appended to the output file are one per
  element of \<^verbatim>\<open>outLinkIDList\<close>, in that order, all of the trip, and their sequence
  numbers are \<open>longestStart, longestStart + 1, \<dots>\<close>: consecutive integers that start at
  the selected run's start index, not at zero.
\<close>

theorem route_link_rows_numbered_from_longestStart:
  assumes "process_trip problemReport constructPath gtfsNodes gtfsStopTimes vistaNetwork
             tripID trip st = Inr st'"
    and "shapeEntries trip = se # ses" and "gtfsNodes (shapeID se) = Some treeNodes"
    and "0 \<le> longestStart (longest_interval treeNodes)"
  shows "\<exists>b rows.
      build_subgraph vistaNetwork (vistaNode_var st)
        (take (longestEnd (longest_interval treeNodes) - nat (longestStart (longest_interval treeNodes)))
           (drop (nat (longestStart (longest_interval treeNodes))) treeNodes)) = Inr b
      \<and> outFile st' = outFile st @ rows
      \<and> map row_link rows = outLinkIDList b
      \<and> map row_sequence rows =
            map (\<lambda>i. longestStart (longest_interval treeNodes) + int i) [0..<length rows]
      \<and> map row_route rows = replicate (length rows) tripID"
proof -
  from process_trip_rows [OF assms] obtain b rows where
    r: "build_subgraph vistaNetwork (vistaNode_var st)
        (take (longestEnd (longest_interval treeNodes) - nat (longestStart (longest_interval treeNodes)))
           (drop (nat (longestStart (longest_interval treeNodes))) treeNodes)) = Inr b"
      "outFile st' = outFile st @ rows"
      "map row_link rows = outLinkIDList b"
      "map row_sequence rows =
            map (\<lambda>i. longestStart (longest_interval treeNodes) + int i) [0..<length (outLinkIDList b)]"
      "map row_route rows = replicate (length (outLinkIDList b)) tripID"
    by blast
  from r(3) have "length rows = length (outLinkIDList b)" by (metis length_map)
  with r show ?thesis by auto
qed

lemma ex_trip8_returns:
  "\<not> isl (process_trip False ex_constructPath ex_gtfsNodes ex_gtfsStopTimes ex_net 8 (ex_trip 8 2)
            initial_state)"
  by code_simp

lemma ex_trip8_rows:
  "outFile (projr (process_trip False ex_constructPath ex_gtfsNodes ex_gtfsStopTimes ex_net 8
                     (ex_trip 8 2) initial_state)) =
     [\<lparr>row_route = 8, row_sequence = 2, row_link = 3, row_stop = None, row_dwelltime = None\<rparr>,
      \<lparr>row_route = 8, row_sequence = 3, row_link = 4, row_stop = Some 500, row_dwelltime = Some 0\<rparr>,
      \<lparr>row_route = 8, row_sequence = 4, row_link = 5, row_stop = None, row_dwelltime = None\<rparr>]"
  by code_simp

text \<open>
  The theorem on trip 8, whose selected run starts at index 2: three rows, numbered 2, 3
  and 4, over links 3, 4 and 5.
\<close>

theorem route_link_rows_numbered_from_longestStart_witness:
  "longestStart (longest_interval ex_two_runs) = 2
   \<and> map row_sequence (outFile (projr (process_trip False ex_constructPath ex_gtfsNodes
         ex_gtfsStopTimes ex_net 8 (ex_trip 8 2) initial_state))) = [2, 3, 4]
   \<and> map row_link (outFile (projr (process_trip False ex_constructPath ex_gtfsNodes
         ex_gtfsStopTimes ex_net 8 (ex_trip 8 2) initial_state))) = [3, 4, 5]"
proof -
  let ?r = "process_trip False ex_constructPath ex_gtfsNodes ex_gtfsStopTimes ex_net 8
              (ex_trip 8 2) initial_state"
  have ret: "?r = Inr (projr ?r)" using ex_trip8_returns by simp
  have se: "shapeEntries (ex_trip 8 2) = \<lparr>shapeID = 2, shapeSeq = 0, lat = 0, lng = 0\<rparr> # []"
    by (simp add: ex_trip_def)
  have tn: "ex_gtfsNodes (shapeID \<lparr>shapeID = 2, shapeSeq = 0, lat = 0, lng = 0\<rparr>) = Some ex_two_runs"
    by (simp add: ex_gtfsNodes_def)
  have pos: "0 \<le> longestStart (longest_interval ex_two_runs)" by (simp add: ex_two_runs_eval)
  have e: "outFile initial_state = []" by (simp add: initial_state_def)
  from route_link_rows_numbered_from_longestStart [OF ret se tn pos]
  obtain rows where a: "outFile (projr ?r) = outFile initial_state @ rows"
    and b: "map row_sequence rows =
            map (\<lambda>i. longestStart (longest_interval ex_two_runs) + int i) [0..<length rows]"
    by blast
  from a have rows: "rows = outFile (projr ?r)" by (simp add: e)
  from b have "map row_sequence (outFile (projr ?r)) =
        map (\<lambda>i. longestStart (longest_interval ex_two_runs) + int i) [0..<length (outFile (projr ?r))]"
    unfolding rows .
  then show ?thesis
    by (simp add: ex_trip8_rows ex_two_runs_eval)
qed

subsection \<open>Claim C5: stops per link in the rows of one trip\<close>

lemma count_list_map_filter: "count_list (map f xs) y = length (filter (\<lambda>x. f x = y) xs)"
  by (induction xs) simp_all

lemma length_filter_conj_le: "length (filter (\<lambda>x. P x \<and> Q x) xs) \<le> length (filter P xs)"
  by (induction xs) simp_all

text \<open>
  What the walk does ensure: a processed trip gets exactly one row per position of
  \<^verbatim>\<open>outLinkIDList\<close>, and a row has a single stop field. So for every link identifier
  the number of rows that carry a stop is at most the number of times the identifier
  occurs in \<^verbatim>\<open>outLinkIDList\<close>, and where no identifier is repeated, no link identifier
  appears in two rows.
\<close>

lemma route_link_rows_one_stop_per_traversal:
  assumes "process_trip problemReport constructPath gtfsNodes gtfsStopTimes vistaNetwork
             tripID trip st = Inr st'"
    and "shapeEntries trip = se # ses" and "gtfsNodes (shapeID se) = Some treeNodes"
    and "0 \<le> longestStart (longest_interval treeNodes)"
  shows "\<exists>b rows.
      build_subgraph vistaNetwork (vistaNode_var st)
        (take (longestEnd (longest_interval treeNodes) - nat (longestStart (longest_interval treeNodes)))
           (drop (nat (longestStart (longest_interval treeNodes))) treeNodes)) = Inr b
      \<and> outFile st' = outFile st @ rows
      \<and> length rows = length (outLinkIDList b)
      \<and> (\<forall>l. length (filter (\<lambda>row. row_link row = l \<and> row_stop row \<noteq> None) rows)
                 \<le> count_list (outLinkIDList b) l)
      \<and> (distinct (outLinkIDList b) \<longrightarrow> distinct (map row_link rows))"
proof -
  from process_trip_rows [OF assms] obtain b rows where
    r: "build_subgraph vistaNetwork (vistaNode_var st)
        (take (longestEnd (longest_interval treeNodes) - nat (longestStart (longest_interval treeNodes)))
           (drop (nat (longestStart (longest_interval treeNodes))) treeNodes)) = Inr b"
      "outFile st' = outFile st @ rows"
      "map row_link rows = outLinkIDList b"
    by blast
  from r(3) have len: "length rows = length (outLinkIDList b)" by (metis length_map)
  have cnt: "\<And>l. length (filter (\<lambda>row. row_link row = l \<and> row_stop row \<noteq> None) rows)
                 \<le> count_list (outLinkIDList b) l"
  proof -
    fix l
    have "length (filter (\<lambda>row. row_link row = l \<and> row_stop row \<noteq> None) rows)
            \<le> length (filter (\<lambda>row. row_link row = l) rows)"
      by (rule length_filter_conj_le)
    also have "\<dots> = count_list (map row_link rows) l" by (simp add: count_list_map_filter)
    finally show "length (filter (\<lambda>row. row_link row = l \<and> row_stop row \<noteq> None) rows)
                 \<le> count_list (outLinkIDList b) l"
      by (simp add: r(3))
  qed
  from r len cnt show ?thesis by (intro exI [of _ b] exI [of _ rows]) simp
qed

lemma ex_trip7_summary:
  "ex_summary (process_trip False ex_constructPath ex_gtfsNodes ex_gtfsStopTimes ex_net 7
                 (ex_trip 7 1) initial_state) =
     Some ([\<lparr>row_route = 7, row_sequence = 0, row_link = 1, row_stop = Some 101, row_dwelltime = Some 0\<rparr>,
            \<lparr>row_route = 7, row_sequence = 1, row_link = 2, row_stop = Some 102, row_dwelltime = Some 0\<rparr>,
            \<lparr>row_route = 7, row_sequence = 2, row_link = 1, row_stop = Some 103, row_dwelltime = Some 0\<rparr>,
            \<lparr>row_route = 7, row_sequence = 3, row_link = 3, row_stop = Some 500, row_dwelltime = Some 0\<rparr>],
           [InfoRoute 7, InfoMapping],
           [Some 1, Some 2, Some 1, Some 3])"
  by code_simp

text \<open>
  Claim C5 does not hold for a path that runs over a link twice. The module's
  documentation says that only one stop may be mapped to any one link and that extra
  stops are dropped; the walk drops extra stops within one block of consecutive matches
  only and keeps no record of the links that already carry a stop. Trip 7 runs over
  links 1, 2, 1, 3 and calls at stop 101 on link 1, stop 102 on link 2 and stop 103 on
  link 1 again: its first and third row are both on link 1, with stops 101 and 103, and the
  returned map has both stops on link 1.
\<close>

theorem revisited_link_carries_two_stops:
  "map row_route (outFile (projr (process_trip False ex_constructPath ex_gtfsNodes
       ex_gtfsStopTimes ex_net 7 (ex_trip 7 1) initial_state))) = [7, 7, 7, 7]
   \<and> map row_link (outFile (projr (process_trip False ex_constructPath ex_gtfsNodes
       ex_gtfsStopTimes ex_net 7 (ex_trip 7 1) initial_state))) = [1, 2, 1, 3]
   \<and> map row_stop (outFile (projr (process_trip False ex_constructPath ex_gtfsNodes
       ex_gtfsStopTimes ex_net 7 (ex_trip 7 1) initial_state)))
        = [Some 101, Some 102, Some 103, Some 500]
   \<and> stop_link (projr (process_trip False ex_constructPath ex_gtfsNodes
       ex_gtfsStopTimes ex_net 7 (ex_trip 7 1) initial_state)) 101 = Some 1
   \<and> stop_link (projr (process_trip False ex_constructPath ex_gtfsNodes
       ex_gtfsStopTimes ex_net 7 (ex_trip 7 1) initial_state)) 103 = Some 1"
  using ex_summary_Some(4) [OF ex_trip7_summary]
  by (simp add: ex_summary_Some(2) [OF ex_trip7_summary])

subsection \<open>The example run, evaluated\<close>

lemma ex_run_first_trip:
  "ex_summary (run_trips False ex_constructPath ex_gtfsTrips ex_gtfsNodes ex_gtfsStopTimes ex_net
                 [7] initial_state) =
     Some ([\<lparr>row_route = 7, row_sequence = 0, row_link = 1, row_stop = Some 101, row_dwelltime = Some 0\<rparr>,
            \<lparr>row_route = 7, row_sequence = 1, row_link = 2, row_stop = Some 102, row_dwelltime = Some 0\<rparr>,
            \<lparr>row_route = 7, row_sequence = 2, row_link = 1, row_stop = Some 103, row_dwelltime = Some 0\<rparr>,
            \<lparr>row_route = 7, row_sequence = 3, row_link = 3, row_stop = Some 500, row_dwelltime = Some 0\<rparr>],
           [InfoRoute 7, InfoMapping],
           [Some 1, Some 2, Some 1, Some 3])"
  by code_simp

lemma ex_run_all_trips:
  "ex_summary (dumpBusRouteLinks False ex_constructPath ex_gtfsTrips ex_gtfsNodes ex_gtfsStopTimes
                 ex_net) =
     Some ([\<lparr>row_route = 7, row_sequence = 0, row_link = 1, row_stop = Some 101, row_dwelltime = Some 0\<rparr>,
            \<lparr>row_route = 7, row_sequence = 1, row_link = 2, row_stop = Some 102, row_dwelltime = Some 0\<rparr>,
            \<lparr>row_route = 7, row_sequence = 2, row_link = 1, row_stop = Some 103, row_dwelltime = Some 0\<rparr>,
            \<lparr>row_route = 7, row_sequence = 3, row_link = 3, row_stop = Some 500, row_dwelltime = Some 0\<rparr>,
            \<lparr>row_route = 8, row_sequence = 2, row_link = 3, row_stop = None, row_dwelltime = None\<rparr>,
            \<lparr>row_route = 8, row_sequence = 3, row_link = 4, row_stop = Some 500, row_dwelltime = Some 0\<rparr>,
            \<lparr>row_route = 8, row_sequence = 4, row_link = 5, row_stop = None, row_dwelltime = None\<rparr>],
           [InfoRoute 7, InfoMapping, InfoRoute 8, WarnTrimmed 1 2 6 3 5, InfoMapping,
            WarnConflict 500 4 3],
           [Some 1, Some 2, Some 1, Some 3])"
  by code_simp

lemma ex_sorted_tripIDs: "sorted_tripIDs ex_gtfsTrips = [7] @ [8, 9]"
  by code_simp

subsection \<open>Claim C1: the assignment map keeps the first link of a stop\<close>

text \<open>
  Claim C1. In a run of \<^verbatim>\<open>dumpBusRouteLinks\<close> that returns, split the sorted trip
  identifiers into the trips already processed and the later ones: a stop that the map
  assigns after the earlier trips is still assigned at the end, to a point on the link
  with the same identifier. The same holds across any single trip from any state. And
  an attempted assignment of a stop that the map already has on a link with a different
  identifier leaves the map as it is and logs the conflict warning (lines 364--369).
\<close>

theorem assignment_map_first_writer_wins:
  shows "(dumpBusRouteLinks problemReport constructPath gtfsTrips gtfsNodes gtfsStopTimes vistaNetwork
            = Inr final
          \<and> sorted_tripIDs gtfsTrips = earlier @ later
          \<and> run_trips problemReport constructPath gtfsTrips gtfsNodes gtfsStopTimes vistaNetwork
               earlier initial_state = Inr mid
          \<and> ret mid sid = Some p
          \<longrightarrow> (\<exists>p'. ret final sid = Some p' \<and> link_id (link p') = link_id (link p)))
     \<and> (process_trip problemReport constructPath gtfsNodes gtfsStopTimes vistaNetwork tripID trip st
            = Inr st'
          \<and> ret st sid = Some p
          \<longrightarrow> (\<exists>p'. ret st' sid = Some p' \<and> link_id (link p') = link_id (link p)))
     \<and> (ret_map sid = Some q \<and> link_id (link q) \<noteq> link_id (link p)
          \<longrightarrow> assign_stop ret_map msgs sid p
                = (ret_map, msgs @ [WarnConflict sid (link_id (link p)) (link_id (link q))]))"
proof (intro conjI impI)
  assume h: "dumpBusRouteLinks problemReport constructPath gtfsTrips gtfsNodes gtfsStopTimes vistaNetwork
            = Inr final
          \<and> sorted_tripIDs gtfsTrips = earlier @ later
          \<and> run_trips problemReport constructPath gtfsTrips gtfsNodes gtfsStopTimes vistaNetwork
               earlier initial_state = Inr mid
          \<and> ret mid sid = Some p"
  then have "run_trips problemReport constructPath gtfsTrips gtfsNodes gtfsStopTimes vistaNetwork
               (earlier @ later) initial_state = Inr final"
    and "run_trips problemReport constructPath gtfsTrips gtfsNodes gtfsStopTimes vistaNetwork
               earlier initial_state = Inr mid"
    unfolding dumpBusRouteLinks_def by metis+
  then have "run_trips problemReport constructPath gtfsTrips gtfsNodes gtfsStopTimes vistaNetwork
               later mid = Inr final"
    by (simp add: run_trips_append)
  from run_trips_link_kept [OF this] h
  show "\<exists>p'. ret final sid = Some p' \<and> link_id (link p') = link_id (link p)"
    by (simp add: link_kept_def)
next
  assume h: "process_trip problemReport constructPath gtfsNodes gtfsStopTimes vistaNetwork tripID trip st
            = Inr st' \<and> ret st sid = Some p"
  then have "process_trip problemReport constructPath gtfsNodes gtfsStopTimes vistaNetwork tripID trip st
            = Inr st'" by simp
  then have "link_kept (ret st) (ret st')" by (rule process_trip_link_kept)
  with h show "\<exists>p'. ret st' sid = Some p' \<and> link_id (link p') = link_id (link p)"
    by (simp add: link_kept_def)
next
  assume "ret_map sid = Some q \<and> link_id (link q) \<noteq> link_id (link p)"
  then show "assign_stop ret_map msgs sid p
                = (ret_map, msgs @ [WarnConflict sid (link_id (link p)) (link_id (link q))])"
    by (simp add: assign_stop_def)
qed


text \<open>
  The theorem on the example run: trip 7 puts stop 500 on link 3, trip 8 then matches it
  to link 4; at the end the stop is still on link 3 and the conflict is logged.
\<close>

theorem assignment_map_first_writer_wins_witness:
  "sorted_tripIDs ex_gtfsTrips = [7] @ [8, 9]
   \<and> stop_link (projr (run_trips False ex_constructPath ex_gtfsTrips ex_gtfsNodes ex_gtfsStopTimes
                          ex_net [7] initial_state)) 500 = Some 3
   \<and> stop_link (projr (dumpBusRouteLinks False ex_constructPath ex_gtfsTrips ex_gtfsNodes
                          ex_gtfsStopTimes ex_net)) 500 = Some 3
   \<and> WarnConflict 500 4 3 \<in> set (stderr_log (projr (dumpBusRouteLinks False ex_constructPath
                          ex_gtfsTrips ex_gtfsNodes ex_gtfsStopTimes ex_net)))
   \<and> assign_stop [500 \<mapsto> ex_point 3] [] 500 (ex_point 4)
        = ([500 \<mapsto> ex_point 3], [WarnConflict 500 4 3])"
proof -
  let ?mid = "run_trips False ex_constructPath ex_gtfsTrips ex_gtfsNodes ex_gtfsStopTimes ex_net
                [7] initial_state"
  let ?final = "dumpBusRouteLinks False ex_constructPath ex_gtfsTrips ex_gtfsNodes ex_gtfsStopTimes
                  ex_net"
  note m = ex_summary_Some [OF ex_run_first_trip]
  note f = ex_summary_Some [OF ex_run_all_trips]
  from m(4) have ml: "stop_link (projr ?mid) 500 = Some 3" by simp
  then obtain p where p: "ret (projr ?mid) 500 = Some p" and pl: "link_id (link p) = 3"
    by (auto simp: stop_link_def)
  have prem: "?final = Inr (projr ?final)
          \<and> sorted_tripIDs ex_gtfsTrips = [7] @ [8, 9]
          \<and> ?mid = Inr (projr ?mid)
          \<and> ret (projr ?mid) 500 = Some p"
    using f(1) ex_sorted_tripIDs m(1) p by (intro conjI)
  have "?final = Inr (projr ?final)
          \<and> sorted_tripIDs ex_gtfsTrips = [7] @ [8, 9]
          \<and> ?mid = Inr (projr ?mid)
          \<and> ret (projr ?mid) 500 = Some p
        \<longrightarrow> (\<exists>p'. ret (projr ?final) 500 = Some p' \<and> link_id (link p') = link_id (link p))"
    using assignment_map_first_writer_wins [where problemReport = False
        and constructPath = ex_constructPath and gtfsTrips = ex_gtfsTrips
        and gtfsNodes = ex_gtfsNodes and gtfsStopTimes = ex_gtfsStopTimes
        and vistaNetwork = ex_net and final = "projr ?final" and earlier = "[7]"
        and later = "[8, 9]" and mid = "projr ?mid" and sid = 500 and p = p]
    by (rule conjunct1)
  with prem obtain p' where "ret (projr ?final) 500 = Some p'"
    "link_id (link p') = link_id (link p)"
    by blast
  with pl have fl: "stop_link (projr ?final) 500 = Some 3" by (simp add: stop_link_def)
  let ?m = "[(500::int) \<mapsto> ex_point 3]"
  have ne: "?m 500 = Some (ex_point 3)
        \<and> link_id (link (ex_point 3)) \<noteq> link_id (link (ex_point 4))"
    by (simp add: ex_point_def ex_link_def)
  have "?m 500 = Some (ex_point 3)
        \<and> link_id (link (ex_point 3)) \<noteq> link_id (link (ex_point 4))
        \<longrightarrow> assign_stop ?m [] 500 (ex_point 4)
             = (?m, [] @ [WarnConflict 500 (link_id (link (ex_point 4))) (link_id (link (ex_point 3)))])"
    by (rule assignment_map_first_writer_wins [where ret_map = "?m"
        and sid = 500 and q = "ex_point 3" and p = "ex_point 4" and msgs = "[]",
        THEN conjunct2, THEN conjunct2])
  with ne have "assign_stop ?m [] 500 (ex_point 4) = (?m, [WarnConflict 500 4 3])"
    by (simp add: ex_point_def ex_link_def)
  with ml fl ex_sorted_tripIDs show ?thesis by (simp add: f(3))
qed

subsection \<open>Claim C10: a trip without matched path nodes is skipped\<close>

text \<open>
  Claim C10. For a trip whose shape identifier has no entry in \<^verbatim>\<open>gtfsNodes\<close>, the loop
  body returns the state it was given: no row, no message (line 168 comes before the
  first \<^verbatim>\<open>print\<close>), and the same assignment map and problem-report accumulator.
\<close>

theorem process_trip_skips_unknown_shape:
  assumes "shapeEntries trip = se # ses" and "gtfsNodes (shapeID se) = None"
  shows "process_trip problemReport constructPath gtfsNodes gtfsStopTimes vistaNetwork tripID trip st
           = Inr st"
  using assms by (simp add: process_trip_def)


text \<open>
  The theorem on trip 9, whose shape 99 has no tree nodes; the example run writes no row
  for it.
\<close>

theorem process_trip_skips_unknown_shape_witness:
  "ex_gtfsNodes 99 = None
   \<and> process_trip True ex_constructPath ex_gtfsNodes ex_gtfsStopTimes ex_net 9 (ex_trip 9 99)
        initial_state = Inr initial_state
   \<and> 9 \<notin> set (map row_route (outFile (projr (dumpBusRouteLinks False ex_constructPath
                    ex_gtfsTrips ex_gtfsNodes ex_gtfsStopTimes ex_net))))"
proof -
  have se: "shapeEntries (ex_trip 9 99) = \<lparr>shapeID = 99, shapeSeq = 0, lat = 0, lng = 0\<rparr> # []"
    by (simp add: ex_trip_def)
  have no: "ex_gtfsNodes (shapeID \<lparr>shapeID = 99, shapeSeq = 0, lat = 0, lng = 0\<rparr>) = None"
    by (simp add: ex_gtfsNodes_def)
  from process_trip_skips_unknown_shape [where gtfsNodes = ex_gtfsNodes, OF se no]
  have "process_trip True ex_constructPath ex_gtfsNodes ex_gtfsStopTimes ex_net 9 (ex_trip 9 99)
        initial_state = Inr initial_state" .
  with no show ?thesis
    by (simp add: ex_summary_Some(2) [OF ex_run_all_trips])
qed

subsection \<open>Claim C7: the stops that the walk did not find\<close>

lemma report_unmatched_off:
  "report_unmatched False tripID sid found sts (msgs, prn) = Inr (msgs', prn') \<Longrightarrow> prn' = prn"
  by (induction sts arbitrary: msgs) (auto simp: Let_def split: if_splits)

lemma report_unmatched_placeholders:
  "report_unmatched True tripID sid found sts (msgs, prn) = Inr (msgs', prn')
   \<Longrightarrow> prn sid = Some rl
   \<Longrightarrow> \<exists>rl'. prn' sid = Some rl'
         \<and> (\<forall>sq v. rl sq = Some v \<longrightarrow> rl' sq = Some v)
         \<and> (\<forall>st \<in> set sts. stopSeq st \<notin> found \<and> rl (stopSeq st) = None \<longrightarrow>
               (\<exists>se x y. rl' (stopSeq st) = Some (Placeholder se x y)
                  \<and> shapeID se = sid \<and> shapeSeq se = stopSeq st))"
proof (induction sts arbitrary: msgs prn rl)
  case Nil
  then show ?case by simp
next
  case (Cons st sts)
  show ?case
  proof (cases "stopSeq st \<notin> found \<and> rl (stopSeq st) = None")
    case False
    with Cons.prems obtain m1 where
      "report_unmatched True tripID sid found sts (m1, prn) = Inr (msgs', prn')"
      by (auto simp: Let_def split: if_splits)
    from Cons.IH [OF this Cons.prems(2)] False show ?thesis by auto
  next
    case True
    let ?ph = "Placeholder
                 \<lparr>shapeID = sid, shapeSeq = stopSeq st,
                  lat = stop_gpsLat (stop st), lng = stop_gpsLng (stop st)\<rparr>
                 (pointX (stop st)) (pointY (stop st))"
    let ?rl1 = "rl(stopSeq st \<mapsto> ?ph)"
    let ?prn1 = "prn(sid \<mapsto> ?rl1)"
    from Cons.prems True obtain m1 where
      r: "report_unmatched True tripID sid found sts (m1, ?prn1) = Inr (msgs', prn')"
      by (auto simp: Let_def)
    have "?prn1 sid = Some ?rl1" by simp
    from Cons.IH [OF r this] obtain rl' where rl': "prn' sid = Some rl'"
      and keep: "\<forall>sq v. ?rl1 sq = Some v \<longrightarrow> rl' sq = Some v"
      and rest: "\<forall>s \<in> set sts. stopSeq s \<notin> found \<and> ?rl1 (stopSeq s) = None \<longrightarrow>
               (\<exists>se x y. rl' (stopSeq s) = Some (Placeholder se x y)
                  \<and> shapeID se = sid \<and> shapeSeq se = stopSeq s)"
      by blast
    from keep have here: "rl' (stopSeq st) = Some ?ph" by simp
    have k: "\<forall>sq v. rl sq = Some v \<longrightarrow> rl' sq = Some v"
    proof (intro allI impI)
      fix sq v assume "rl sq = Some v"
      with True have "sq \<noteq> stopSeq st" by auto
      with \<open>rl sq = Some v\<close> keep show "rl' sq = Some v" by simp
    qed
    have "\<forall>s \<in> set (st # sts). stopSeq s \<notin> found \<and> rl (stopSeq s) = None \<longrightarrow>
               (\<exists>se x y. rl' (stopSeq s) = Some (Placeholder se x y)
                  \<and> shapeID se = sid \<and> shapeSeq se = stopSeq s)"
    proof (intro ballI impI)
      fix s assume s: "s \<in> set (st # sts)" and u: "stopSeq s \<notin> found \<and> rl (stopSeq s) = None"
      show "\<exists>se x y. rl' (stopSeq s) = Some (Placeholder se x y)
                  \<and> shapeID se = sid \<and> shapeSeq se = stopSeq s"
      proof (cases "stopSeq s = stopSeq st")
        case True
        with here show ?thesis by simp
      next
        case False
        with s True have "s \<in> set sts" by auto
        moreover from False u have "stopSeq s \<notin> found \<and> ?rl1 (stopSeq s) = None" by simp
        ultimately show ?thesis using rest by blast
      qed
    qed
    with rl' k show ?thesis by blast
  qed
qed

lemma count_list_distinct: "distinct xs \<Longrightarrow> x \<in> set xs \<Longrightarrow> count_list xs x = 1"
  by (induction xs) auto

lemma unmatched_warning_once:
  assumes d: "distinct (map stopSeq sts)" and st: "st \<in> set sts" and u: "stopSeq st \<notin> found"
  shows "count_list (map (\<lambda>st. WarnUnmatched tripID (stopID (stop st)) (stopSeq st))
                       (filter (\<lambda>st. stopSeq st \<notin> found) sts))
           (WarnUnmatched tripID (stopID (stop st)) (stopSeq st)) = 1"
proof -
  let ?f = "\<lambda>st. WarnUnmatched tripID (stopID (stop st)) (stopSeq st)"
  let ?xs = "filter (\<lambda>st. stopSeq st \<notin> found) sts"
  from d have inj: "inj_on stopSeq (set sts)" and ds: "distinct sts"
    by (simp_all add: distinct_map)
  have "inj_on ?f (set ?xs)"
  proof (rule inj_onI)
    fix a b assume "a \<in> set ?xs" "b \<in> set ?xs" "?f a = ?f b"
    then have "a \<in> set sts" "b \<in> set sts" "stopSeq a = stopSeq b" by simp_all
    from inj_onD [OF inj this(3) this(1) this(2)] show "a = b" .
  qed
  moreover from st u have m: "st \<in> set ?xs" by simp
  ultimately have "count_list (map ?f ?xs) (?f st) = count_list ?xs st"
    by (rule count_list_inj_map)
  also from ds m have "\<dots> = 1" by (intro count_list_distinct) simp_all
  finally show ?thesis .
qed

text \<open>
  Claim C7. The loop over the trip's stop times after the walk (lines 378--396), when it
  returns, appends one unmatched-stop warning for each scheduled stop whose sequence
  number is not in the found-set, in schedule order, and nothing else; so, the sequence
  numbers of a trip being distinct, each such stop is named by exactly one of the
  appended warnings. With the problem report enabled, every such stop whose sequence
  number had no entry in the shape's \<^verbatim>\<open>revisedNodeList\<close> has a placeholder entry there
  afterwards, flagged as a restart; with the problem report disabled the accumulator is
  unchanged.
\<close>

theorem unmatched_stops_warned_once:
  assumes "report_unmatched problemReport tripID sid found stopTimes (msgs, prn) = Inr (msgs', prn')"
  shows "msgs' = msgs @ map (\<lambda>st. WarnUnmatched tripID (stopID (stop st)) (stopSeq st))
                         (filter (\<lambda>st. stopSeq st \<notin> found) stopTimes)
     \<and> (distinct (map stopSeq stopTimes) \<longrightarrow>
           (\<forall>st \<in> set stopTimes. stopSeq st \<notin> found \<longrightarrow>
              count_list (drop (length msgs) msgs')
                (WarnUnmatched tripID (stopID (stop st)) (stopSeq st)) = 1))
     \<and> (problemReport \<longrightarrow>
           (\<forall>rl. prn sid = Some rl \<longrightarrow>
              (\<exists>rl'. prn' sid = Some rl'
                 \<and> (\<forall>st \<in> set stopTimes. stopSeq st \<notin> found \<and> rl (stopSeq st) = None \<longrightarrow>
                       (\<exists>se x y. rl' (stopSeq st) = Some (Placeholder se x y)
                          \<and> shapeID se = sid \<and> shapeSeq se = stopSeq st
                          \<and> report_restart (Placeholder se x y))))))
     \<and> (\<not> problemReport \<longrightarrow> prn' = prn)"
proof (intro conjI impI allI ballI)
  show m: "msgs' = msgs @ map (\<lambda>st. WarnUnmatched tripID (stopID (stop st)) (stopSeq st))
                         (filter (\<lambda>st. stopSeq st \<notin> found) stopTimes)"
    using assms by (rule report_unmatched_messages)
  fix st assume "distinct (map stopSeq stopTimes)" "st \<in> set stopTimes" "stopSeq st \<notin> found"
  then show "count_list (drop (length msgs) msgs')
                (WarnUnmatched tripID (stopID (stop st)) (stopSeq st)) = 1"
    unfolding m by (simp add: unmatched_warning_once)
next
  fix rl assume pr: problemReport and rl: "prn sid = Some rl"
  from assms pr have "report_unmatched True tripID sid found stopTimes (msgs, prn) = Inr (msgs', prn')"
    by simp
  from report_unmatched_placeholders [OF this rl]
  show "\<exists>rl'. prn' sid = Some rl'
                 \<and> (\<forall>st \<in> set stopTimes. stopSeq st \<notin> found \<and> rl (stopSeq st) = None \<longrightarrow>
                       (\<exists>se x y. rl' (stopSeq st) = Some (Placeholder se x y)
                          \<and> shapeID se = sid \<and> shapeSeq se = stopSeq st
                          \<and> report_restart (Placeholder se x y)))"
    by (simp only: report_restart.simps simp_thms) blast
next
  assume "\<not> problemReport"
  with assms show "prn' = prn" by (simp add: report_unmatched_off)
qed

lemma ex_report_unmatched:
  "report_unmatched True 3 1 {5} [ex_stop_time 5 201 0 0, ex_stop_time 7 202 0 0]
      ([], [1 \<mapsto> Map.empty]) =
     Inr ([WarnUnmatched 3 202 7],
          [1 \<mapsto> [7 \<mapsto> Placeholder \<lparr>shapeID = 1, shapeSeq = 7, lat = 0, lng = 0\<rparr> 0 0]])"
  by (simp add: ex_stop_time_def Let_def)

text \<open>
  The theorem on a trip with stops of sequence numbers 5 and 7 of which only 5 was
  found: one warning, for sequence number 7, and a placeholder flagged as restart.
\<close>

theorem unmatched_stops_warned_once_witness:
  "fst (projr (report_unmatched True 3 1 {5} [ex_stop_time 5 201 0 0, ex_stop_time 7 202 0 0]
                 ([], [1 \<mapsto> Map.empty]))) = [WarnUnmatched 3 202 7]
   \<and> count_list [WarnUnmatched 3 202 7] (WarnUnmatched 3 202 7) = 1
   \<and> map_option report_restart
        (the (snd (projr (report_unmatched True 3 1 {5}
                 [ex_stop_time 5 201 0 0, ex_stop_time 7 202 0 0] ([], [1 \<mapsto> Map.empty]))) 1) 7)
       = Some True"
proof -
  let ?sts = "[ex_stop_time 5 201 0 0, ex_stop_time 7 202 0 0]"
  let ?prn' = "[(1::int) \<mapsto> [(7::int) \<mapsto> Placeholder \<lparr>shapeID = 1, shapeSeq = 7, lat = 0, lng = 0\<rparr> 0 0]]"
  note t = unmatched_stops_warned_once [OF ex_report_unmatched]
  have d: "distinct (map stopSeq ?sts)" by (simp add: ex_stop_time_def)
  have m: "ex_stop_time 7 202 0 0 \<in> set ?sts" "stopSeq (ex_stop_time 7 202 0 0) \<notin> {5}"
    by (simp_all add: ex_stop_time_def)
  from t [THEN conjunct2, THEN conjunct1, rule_format, OF d m]
  have "count_list [WarnUnmatched 3 202 7] (WarnUnmatched 3 202 7) = 1"
    by (simp add: ex_stop_time_def)
  moreover from t [THEN conjunct2, THEN conjunct2, THEN conjunct1, rule_format, OF TrueI, of Map.empty]
  obtain rl' where "?prn' 1 = Some rl'"
    and "\<forall>st \<in> set ?sts. stopSeq st \<notin> {5} \<and> Map.empty (stopSeq st) = None \<longrightarrow>
           (\<exists>se x y. rl' (stopSeq st) = Some (Placeholder se x y)
              \<and> shapeID se = 1 \<and> shapeSeq se = stopSeq st
              \<and> report_restart (Placeholder se x y))"
    by auto
  with m have "\<exists>se x y. the (?prn' 1) (stopSeq (ex_stop_time 7 202 0 0)) = Some (Placeholder se x y)
              \<and> report_restart (Placeholder se x y)"
    by auto
  ultimately show ?thesis
    by (simp add: ex_report_unmatched ex_stop_time_def)
qed

subsection \<open>Claim C9: the offsets of the frequency table\<close>

lemma frequency_offset_later:
  "refTime \<le> stopTime \<Longrightarrow> frequency_offset refTime stopTime = stopTime - refTime"
  by (simp add: frequency_offset_def)

lemma frequency_offset_wrapped:
  assumes "stopTime < refTime"
  shows "frequency_offset refTime stopTime
           = stopTime + 86400 * ((refTime - stopTime) div 86400 + 1) - refTime"
    and "0 < frequency_offset refTime stopTime"
    and "frequency_offset refTime stopTime \<le> 86400"
    and "stopTime + 86400 * ((refTime - stopTime) div 86400) \<le> refTime"
proof -
  define d where "d = refTime - stopTime"
  define q where "q = d div 86400"
  define rm where "rm = d mod 86400"
  have o: "frequency_offset refTime stopTime = 86400 * (q + 1) - d"
    using assms by (simp add: frequency_offset_def d_def q_def)
  show "frequency_offset refTime stopTime
           = stopTime + 86400 * ((refTime - stopTime) div 86400 + 1) - refTime"
    using assms by (simp add: frequency_offset_def)
  have m: "d = 86400 * q + rm" by (simp add: q_def rm_def)
  have r: "0 \<le> rm" "rm < 86400" by (simp_all add: rm_def)
  from m r show "0 < frequency_offset refTime stopTime" unfolding o by arith
  from m r show "frequency_offset refTime stopTime \<le> 86400" unfolding o by arith
  have "d - rm \<le> d" using r by simp
  then have "stopTime + 86400 * q \<le> refTime" using m unfolding d_def by arith
  then show "stopTime + 86400 * ((refTime - stopTime) div 86400) \<le> refTime"
    by (simp add: q_def d_def)
qed

lemma frequency_offset_nonneg: "0 \<le> frequency_offset refTime stopTime"
proof (cases "stopTime < refTime")
  case True
  from frequency_offset_wrapped(2) [OF this] show ?thesis by simp
next
  case False
  then show ?thesis by (simp add: frequency_offset_later)
qed

lemma frequency_rows_inv:
  "frequency_rows gtfsTrips gtfsStopTimes refTime ids = Inr rows \<Longrightarrow>
     map fr_route rows = ids
     \<and> (\<forall>row \<in> set rows.
           fr_period row = 1 \<and> fr_frequency row = 86400 \<and> fr_preemption row = 0
           \<and> (\<exists>trip first rest. map_of gtfsTrips (fr_route row) = Some trip
                 \<and> gtfsStopTimes trip = Some (first # rest)
                 \<and> fr_offsettime row = frequency_offset refTime (stop_time first)))"
proof (induction ids arbitrary: rows)
  case Nil
  then show ?case by simp
next
  case (Cons tripID ids)
  from Cons.prems obtain trip first rest rows1 where
    t: "map_of gtfsTrips tripID = Some trip" "gtfsStopTimes trip = Some (first # rest)"
    and r: "frequency_rows gtfsTrips gtfsStopTimes refTime ids = Inr rows1"
    and rows: "rows = \<lparr>fr_route = tripID, fr_period = 1, fr_frequency = 86400,
                       fr_offsettime = frequency_offset refTime (stop_time first),
                       fr_preemption = 0\<rparr> # rows1"
    by (auto split: option.splits list.splits sum.splits)
  from Cons.IH [OF r] t show ?case unfolding rows by auto
qed

text \<open>
  Claim C9. When the frequency loop returns, it has written one row per trip, in the
  order of the sorted trip identifiers, with period 1, frequency 86400 and preemption 0,
  and with the offset computed from the trip's first stop time. That offset is never
  negative. For a stop time at or after the reference time it is their difference in
  seconds. For an earlier stop time, \<open>(refTime - stopTime) div 86400 + 1\<close> whole days are
  added first: the offset then lies in \<open>(0, 86400]\<close>, and one day less would not have
  carried the stop time past the reference time.
\<close>

theorem frequency_offset_wraps_into_next_day:
  assumes "dumpBusFrequency gtfsTrips gtfsStopTimes refTime = Inr rows"
  shows "map fr_route rows = sorted_tripIDs gtfsTrips
     \<and> (\<forall>row \<in> set rows.
           fr_period row = 1 \<and> fr_frequency row = 86400 \<and> fr_preemption row = 0
           \<and> 0 \<le> fr_offsettime row
           \<and> (\<exists>trip first rest. map_of gtfsTrips (fr_route row) = Some trip
                 \<and> gtfsStopTimes trip = Some (first # rest)
                 \<and> fr_offsettime row = frequency_offset refTime (stop_time first)))
     \<and> (\<forall>stopTime. refTime \<le> stopTime \<longrightarrow>
           frequency_offset refTime stopTime = stopTime - refTime)
     \<and> (\<forall>stopTime. stopTime < refTime \<longrightarrow>
           frequency_offset refTime stopTime
             = stopTime + 86400 * ((refTime - stopTime) div 86400 + 1) - refTime
           \<and> 0 < frequency_offset refTime stopTime
           \<and> frequency_offset refTime stopTime \<le> 86400
           \<and> stopTime + 86400 * ((refTime - stopTime) div 86400) \<le> refTime)"
proof -
  from assms have "frequency_rows gtfsTrips gtfsStopTimes refTime (sorted_tripIDs gtfsTrips) = Inr rows"
    by (simp add: dumpBusFrequency_def)
  from frequency_rows_inv [OF this]
  have a: "map fr_route rows = sorted_tripIDs gtfsTrips"
    and b: "\<forall>row \<in> set rows.
           fr_period row = 1 \<and> fr_frequency row = 86400 \<and> fr_preemption row = 0
           \<and> (\<exists>trip first rest. map_of gtfsTrips (fr_route row) = Some trip
                 \<and> gtfsStopTimes trip = Some (first # rest)
                 \<and> fr_offsettime row = frequency_offset refTime (stop_time first))"
    by simp_all
  have b': "\<forall>row \<in> set rows.
           fr_period row = 1 \<and> fr_frequency row = 86400 \<and> fr_preemption row = 0
           \<and> 0 \<le> fr_offsettime row
           \<and> (\<exists>trip first rest. map_of gtfsTrips (fr_route row) = Some trip
                 \<and> gtfsStopTimes trip = Some (first # rest)
                 \<and> fr_offsettime row = frequency_offset refTime (stop_time first))"
  proof
    fix row assume "row \<in> set rows"
    with b obtain trip first rest where
      c: "fr_period row = 1 \<and> fr_frequency row = 86400 \<and> fr_preemption row = 0"
      and d: "map_of gtfsTrips (fr_route row) = Some trip \<and> gtfsStopTimes trip = Some (first # rest)
                 \<and> fr_offsettime row = frequency_offset refTime (stop_time first)"
      by blast
    from d have "0 \<le> fr_offsettime row" by (simp add: frequency_offset_nonneg)
    with c d show "fr_period row = 1 \<and> fr_frequency row = 86400 \<and> fr_preemption row = 0
           \<and> 0 \<le> fr_offsettime row
           \<and> (\<exists>trip first rest. map_of gtfsTrips (fr_route row) = Some trip
                 \<and> gtfsStopTimes trip = Some (first # rest)
                 \<and> fr_offsettime row = frequency_offset refTime (stop_time first))"
      by blast
  qed
  from a b' frequency_offset_later [of refTime] frequency_offset_wrapped [of _ refTime]
  show ?thesis by blast
qed

lemma ex_frequency_rows:
  "dumpBusFrequency ex_timed_trips ex_timed_stops 21600 =
     Inr [\<lparr>fr_route = 1, fr_period = 1, fr_frequency = 86400, fr_offsettime = 8400, fr_preemption = 0\<rparr>,
          \<lparr>fr_route = 2, fr_period = 1, fr_frequency = 86400, fr_offsettime = 65800, fr_preemption = 0\<rparr>]"
  by code_simp

text \<open>
  The theorem with reference time 06:00:00: a first stop at 08:20:00 gives 8400 seconds,
  a first stop at 00:16:40 is moved to the next day and gives 65800 seconds.
\<close>

theorem frequency_offset_wraps_into_next_day_witness:
  "dumpBusFrequency ex_timed_trips ex_timed_stops 21600 =
     Inr [\<lparr>fr_route = 1, fr_period = 1, fr_frequency = 86400, fr_offsettime = 8400, fr_preemption = 0\<rparr>,
          \<lparr>fr_route = 2, fr_period = 1, fr_frequency = 86400, fr_offsettime = 65800, fr_preemption = 0\<rparr>]
   \<and> sorted_tripIDs ex_timed_trips = [1, 2]
   \<and> frequency_offset 21600 30000 = 30000 - 21600
   \<and> frequency_offset 21600 1000 = 1000 + 86400 * 1 - 21600
   \<and> 0 < frequency_offset 21600 1000
   \<and> frequency_offset 21600 (1000 - 86400) = 65800"
proof -
  note t = frequency_offset_wraps_into_next_day [OF ex_frequency_rows]
  from t have "sorted_tripIDs ex_timed_trips = [1, 2]" by simp
  moreover from t have "frequency_offset 21600 30000 = 30000 - 21600" by simp
  moreover from t [THEN conjunct2, THEN conjunct2, THEN conjunct2, rule_format, of 1000]
  have "frequency_offset 21600 1000 = 1000 + 86400 * 1 - 21600 \<and> 0 < frequency_offset 21600 1000"
    by simp
  moreover from t [THEN conjunct2, THEN conjunct2, THEN conjunct2, rule_format, of "1000 - 86400"]
  have "frequency_offset 21600 (1000 - 86400) = 65800"
    by simp
  ultimately show ?thesis using ex_frequency_rows by simp
qed


end
